theory Spec2Isabelle
  imports Complex_Main "HOL-Library.AList"
begin

section \<open>Strings\<close>

text \<open>
  Source strings are modelled as \<^typ>\<open>string\<close> over ASCII text. On such text
  \<^verbatim>\<open>toLowerCase\<close> only moves the letters A..Z, and the regular expression classes
  \<^verbatim>\<open>\d\<close>, \<^verbatim>\<open>\w\<close> and \<^verbatim>\<open>\s\<close> are the sets below. Source numbers (IEEE doubles) are
  modelled as exact numbers: integers where the source only counts, reals otherwise.
\<close>

definition upperChars :: string where
  "upperChars = ''ABCDEFGHIJKLMNOPQRSTUVWXYZ''"

definition lowerChars :: string where
  "lowerChars = ''abcdefghijklmnopqrstuvwxyz''"

definition digitChars :: string where
  "digitChars = ''0123456789''"

definition toLowerChar :: "char \<Rightarrow> char" where
  "toLowerChar c = (case map_of (zip upperChars lowerChars) c of None \<Rightarrow> c | Some l \<Rightarrow> l)"

definition toLowerCase :: "string \<Rightarrow> string" where
  "toLowerCase s = map toLowerChar s"

definition isDigit :: "char \<Rightarrow> bool" where
  "isDigit c = (c \<in> set digitChars)"

text \<open>The class \<^verbatim>\<open>[a-z0-9_]\<close>.\<close>

definition isKeywordChar :: "char \<Rightarrow> bool" where
  "isKeywordChar c = (c \<in> set lowerChars \<or> c \<in> set digitChars \<or> c = CHR ''_'')"

text \<open>The class \<^verbatim>\<open>\s\<close> on ASCII text: tab, line feed, vertical tab, form feed, carriage return, space.\<close>

definition spaceChars :: string where
  "spaceChars = [CHR 0x09, CHR 0x0A, CHR 0x0B, CHR 0x0C, CHR 0x0D, CHR 0x20]"

definition isSpace :: "char \<Rightarrow> bool" where
  "isSpace c = (c \<in> set spaceChars)"

text \<open>\<^verbatim>\<open>xs.join(sep)\<close>\<close>

fun join :: "string \<Rightarrow> string list \<Rightarrow> string" where
  "join sep [] = []"
| "join sep [x] = x"
| "join sep (x # y # ys) = x @ sep @ join sep (y # ys)"

text \<open>
  \<^verbatim>\<open>s.split(/[^a-z0-9_]+/)\<close>: the pieces between the maximal runs of separator
  characters, an empty piece before a leading and after a trailing run, and the single
  piece \<^verbatim>\<open>""\<close> for the empty string. \<open>cur\<close> holds the current piece reversed.
\<close>

fun splitRuns :: "(char \<Rightarrow> bool) \<Rightarrow> string \<Rightarrow> string \<Rightarrow> string list" where
  "splitRuns sep cur [] = [rev cur]"
| "splitRuns sep cur [c] = (if sep c then [rev cur, []] else [rev (c # cur)])"
| "splitRuns sep cur (c # d # cs) =
     (if sep c then (if sep d then splitRuns sep cur (d # cs)
                     else rev cur # splitRuns sep [] (d # cs))
      else splitRuns sep (c # cur) (d # cs))"

text \<open>
  A \<^verbatim>\<open>Set\<close> of strings is the list of its members in insertion order:
  \<^verbatim>\<open>add\<close> appends a value that is not yet a member, \<^verbatim>\<open>new Set(xs)\<close> adds the
  elements of \<open>xs\<close> in turn, \<^verbatim>\<open>size\<close> is the length.
\<close>

definition Set_add :: "'a list \<Rightarrow> 'a \<Rightarrow> 'a list" where
  "Set_add s x = (if x \<in> set s then s else s @ [x])"

definition newSet :: "'a list \<Rightarrow> 'a list" where
  "newSet xs = foldl Set_add [] xs"

section \<open>The playbook (core/playbook.ts)\<close>

datatype Severity = Low | Medium | High

record Fix =
  step :: string
  command :: "string option"

record Feedback =
  helpful :: int
  harmful :: int

record Pattern =
  idP :: string
  fingerprint :: string
  pattern :: string
  severity :: Severity
  category :: string
  title :: string
  symptoms :: "string list"
  root_causes :: "string list"
  fixesP :: "Fix list"
  feedback :: Feedback

record Playbook =
  patterns :: "Pattern list"

definition findPatternById :: "Playbook \<Rightarrow> string \<Rightarrow> Pattern option" where
  "findPatternById playbook pid = find (\<lambda>p. idP p = pid) (patterns playbook)"

subsection \<open>Validation of untyped data\<close>

text \<open>
  \<open>validatePlaybook\<close> takes a value of type \<^verbatim>\<open>unknown\<close>: parsed YAML. A property
  that is absent reads as \<^verbatim>\<open>undefined\<close>, here \<open>None\<close>.
\<close>

datatype json =
    JNull
  | JBool bool
  | JNum real
  | JStr string
  | JArr "json list"
  | JObj "(string \<times> json) list"







text \<open>The decimal digits of a number, as a template literal prints an array index.\<close>

fun showNat :: "nat \<Rightarrow> string" where
  "showNat n = (if n < 10 then [digitChars ! n] else showNat (n div 10) @ [digitChars ! (n mod 10)])"

declare showNat.simps [simp del]
















subsection \<open>Feedback\<close>

datatype FeedbackType = Helpful | Harmful

text \<open>\<^verbatim>\<open>pattern.feedback[type]++\<close>\<close>

fun recordFeedback :: "Pattern \<Rightarrow> FeedbackType \<Rightarrow> Pattern" where
  "recordFeedback p Helpful = p\<lparr>feedback := (feedback p)\<lparr>helpful := helpful (feedback p) + 1\<rparr>\<rparr>"
| "recordFeedback p Harmful = p\<lparr>feedback := (feedback p)\<lparr>harmful := harmful (feedback p) + 1\<rparr>\<rparr>"

text \<open>
  The playbook file is the state: \<open>None\<close> when the file does not exist.
\<close>

definition loadPlaybook :: "Playbook option \<Rightarrow> Playbook" where
  "loadPlaybook file = (case file of None \<Rightarrow> \<lparr>patterns = []\<rparr> | Some data \<Rightarrow> data)"

definition savePlaybook :: "Playbook \<Rightarrow> Playbook option" where
  "savePlaybook playbook = Some playbook"

subsection \<open>Recording feedback (cli/mark.ts)\<close>

definition parseFeedback :: "string \<Rightarrow> FeedbackType option" where
  "parseFeedback fb =
     (let normalizedFeedback = toLowerCase fb in
      if normalizedFeedback = ''helpful'' then Some Helpful
      else if normalizedFeedback = ''harmful'' then Some Harmful
      else None)"

text \<open>
  \<open>findPatternById\<close> returns a reference to the first pattern of the array with the
  given id; \<open>indexOfId\<close> is its position, where the mutation by \<open>recordFeedback\<close> lands.
\<close>

definition indexOfId :: "Playbook \<Rightarrow> string \<Rightarrow> nat" where
  "indexOfId playbook pid = length (takeWhile (\<lambda>p. idP p \<noteq> pid) (patterns playbook))"

text \<open>
  The action of \<open>markCommand\<close> on the playbook file: the left result is the error
  printed before \<^verbatim>\<open>process.exit(1)\<close>, the right one the pattern reported on success.
\<close>

definition markCommand :: "Playbook option \<Rightarrow> string \<Rightarrow> string \<Rightarrow> (string + Pattern) \<times> Playbook option" where
  "markCommand file pid fb =
     (case parseFeedback fb of
        None \<Rightarrow> (Inl (''feedback must be \"helpful\" or \"harmful\", got \"'' @ fb @ ''\"''), file)
      | Some normalizedFeedback \<Rightarrow>
          let playbook = loadPlaybook file in
          case findPatternById playbook pid of
            None \<Rightarrow> (Inl (''Pattern not found: '' @ pid), file)
          | Some pat \<Rightarrow>
              let pat' = recordFeedback pat normalizedFeedback;
                  playbook' = playbook\<lparr>patterns := (patterns playbook)[indexOfId playbook pid := pat']\<rparr>
              in (Inr pat', savePlaybook playbook'))"

section \<open>Keyword matching (core/matching.ts)\<close>

record MatchResult =
  matched :: Pattern
  score :: real
  matchedKeywords :: "string list"

definition stopWords :: "string list" where
  "stopWords =
    [''a'', ''an'', ''the'', ''is'', ''are'', ''was'', ''were'', ''be'', ''been'', ''being'',
     ''have'', ''has'', ''had'', ''do'', ''does'', ''did'', ''will'', ''would'', ''could'',
     ''should'', ''may'', ''might'', ''must'', ''shall'', ''can'', ''need'', ''to'', ''of'',
     ''in'', ''for'', ''on'', ''with'', ''at'', ''by'', ''from'', ''as'', ''into'', ''through'',
     ''during'', ''before'', ''after'', ''above'', ''below'', ''between'', ''under'',
     ''again'', ''further'', ''then'', ''once'', ''here'', ''there'', ''when'', ''where'',
     ''why'', ''how'', ''all'', ''each'', ''few'', ''more'', ''most'', ''other'', ''some'',
     ''such'', ''no'', ''nor'', ''not'', ''only'', ''own'', ''same'', ''so'', ''than'', ''too'',
     ''very'', ''just'', ''and'', ''but'', ''or'', ''if'', ''because'', ''until'', ''while'']"

definition extractKeywords :: "string \<Rightarrow> string list" where
  "extractKeywords msg =
     filter (\<lambda>word. length word \<ge> 3 \<and> word \<notin> set stopWords)
       (splitRuns (\<lambda>c. \<not> isKeywordChar c) [] (toLowerCase msg))"

definition calculateScore :: "string list \<Rightarrow> string list \<Rightarrow> real" where
  "calculateScore keywords1 keywords2 =
     (if length keywords1 = 0 \<or> length keywords2 = 0 then 0
      else
        let set1 = newSet keywords1;
            set2 = newSet keywords2;
            matches = length (filter (\<lambda>word. word \<in> set set2) set1);
            union = newSet (set1 @ set2)
        in (real matches / real (length union)) * 100)"

text \<open>
  The regular expression engine is a parameter:
  \<open>rx p s\<close> is \<open>None\<close> when \<^verbatim>\<open>new RegExp(p, 'i')\<close> throws, and otherwise
  \<open>Some\<close> of what \<^verbatim>\<open>test(s)\<close> returns.
\<close>

type_synonym regexEngine = "string \<Rightarrow> string \<Rightarrow> bool option"

text \<open>The body of the loop over the patterns: the result pushed for one pattern, if any.\<close>

definition matchPattern :: "regexEngine \<Rightarrow> string list \<Rightarrow> string \<Rightarrow> Pattern \<Rightarrow> MatchResult option" where
  "matchPattern rx keywords errorMessage p =
     (if rx (pattern p) errorMessage = Some True
      then Some \<lparr>matched = p, score = 100, matchedKeywords = keywords\<rparr>
      else
        let patternKeywords = extractKeywords (title p @ '' '' @ join '' '' (symptoms p));
            sc = calculateScore keywords patternKeywords
        in if sc > 20
           then Some \<lparr>matched = p, score = sc,
                      matchedKeywords = filter (\<lambda>k. k \<in> set patternKeywords) keywords\<rparr>
           else None)"

definition collectMatches :: "regexEngine \<Rightarrow> Playbook \<Rightarrow> string \<Rightarrow> MatchResult list" where
  "collectMatches rx playbook errorMessage =
     List.map_filter (matchPattern rx (extractKeywords errorMessage) errorMessage) (patterns playbook)"

text \<open>
  \<^verbatim>\<open>xs.slice(0, end)\<close> for an integer \<open>end\<close>: a negative \<open>end\<close> counts from the
  end of the array.
\<close>

definition slice0 :: "'a list \<Rightarrow> int \<Rightarrow> 'a list" where
  "slice0 xs e = (if e < 0 then take (nat (int (length xs) + e)) xs else take (nat e) xs)"

text \<open>
  \<^verbatim>\<open>results.sort((a, b) => b.score - a.score)\<close> is a stable sort by descending
  score, as \<^const>\<open>sort_key\<close> on the negated score is.
\<close>

definition findMatchingPatterns :: "regexEngine \<Rightarrow> Playbook \<Rightarrow> string \<Rightarrow> int \<Rightarrow> MatchResult list" where
  "findMatchingPatterns rx playbook errorMessage limit =
     slice0 (sort_key (\<lambda>r. - score r) (collectMatches rx playbook errorMessage)) limit"

section \<open>Extraction of new patterns (cli/reflect.ts)\<close>

subsection \<open>Replacing the matches of a regular expression\<close>

text \<open>
  \<^verbatim>\<open>s.replace(/re/g, rep)\<close> for a fixed text \<open>rep\<close>. A matcher \<open>m prev s\<close> gives the length of
  the match of the expression at the head of \<open>s\<close>, where \<open>prev\<close> is the character before
  it (for \<^verbatim>\<open>\b\<close>), or \<open>None\<close> when the expression does not match there. The scan
  goes from left to right: at a match it emits \<open>rep\<close> and skips the matched characters
  (the counter), elsewhere it copies one character.
\<close>

type_synonym matcher = "char option \<Rightarrow> string \<Rightarrow> nat option"

fun replaceAll :: "matcher \<Rightarrow> string \<Rightarrow> char option \<Rightarrow> nat \<Rightarrow> string \<Rightarrow> string" where
  "replaceAll m rep prev k [] = []"
| "replaceAll m rep prev (Suc k) (c # cs) = replaceAll m rep (Some c) k cs"
| "replaceAll m rep prev 0 (c # cs) =
     (case m prev (c # cs) of
        Some (Suc n) \<Rightarrow> rep @ replaceAll m rep (Some c) n cs
      | _ \<Rightarrow> c # replaceAll m rep (Some c) 0 cs)"

text \<open>The class \<^verbatim>\<open>\w\<close>, and \<^verbatim>\<open>[a-f0-9-]\<close> under the flag \<^verbatim>\<open>i\<close>.\<close>

definition isWordChar :: "char \<Rightarrow> bool" where
  "isWordChar c = (c \<in> set lowerChars \<or> c \<in> set upperChars \<or> c \<in> set digitChars \<or> c = CHR ''_'')"

definition isHexDash :: "char \<Rightarrow> bool" where
  "isHexDash c = (c \<in> set ''abcdefABCDEF'' \<or> c \<in> set digitChars \<or> c = CHR ''-'')"

text \<open>
  \<^verbatim>\<open>\d+\.\<close> at the head of \<open>s\<close>: the rest of \<open>s\<close> after it. A greedy \<^verbatim>\<open>\d+\<close> that is
  followed by a character other than a digit takes the whole run of digits: giving digits
  back leaves a digit next, never the dot.
\<close>

definition digitsDot :: "string \<Rightarrow> string option" where
  "digitsDot s =
     (case dropWhile isDigit s of
        [] \<Rightarrow> None
      | c # r \<Rightarrow> if takeWhile isDigit s \<noteq> [] \<and> c = CHR ''.'' then Some r else None)"

text \<open>\<^verbatim>\<open>/\d+\.\d+\.\d+\.\d+/\<close>\<close>

definition matchIp :: matcher where
  "matchIp prev s =
     (case digitsDot s of
        None \<Rightarrow> None
      | Some r1 \<Rightarrow>
          (case digitsDot r1 of
             None \<Rightarrow> None
           | Some r2 \<Rightarrow>
               (case digitsDot r2 of
                  None \<Rightarrow> None
                | Some r3 \<Rightarrow>
                    if takeWhile isDigit r3 = [] then None
                    else Some (length s - length (dropWhile isDigit r3)))))"

text \<open>\<^verbatim>\<open>/:\d+/\<close>\<close>

definition matchPort :: matcher where
  "matchPort prev s =
     (case s of
        [] \<Rightarrow> None
      | c # r \<Rightarrow> if c = CHR '':'' \<and> takeWhile isDigit r \<noteq> []
                 then Some (1 + length (takeWhile isDigit r)) else None)"

text \<open>\<^verbatim>\<open>/\/[a-f0-9-]{36}/i\<close>\<close>

definition matchUuid :: matcher where
  "matchUuid prev s =
     (case s of
        [] \<Rightarrow> None
      | c # r \<Rightarrow> if c = CHR ''/'' \<and> 36 \<le> length r \<and> list_all isHexDash (take 36 r)
                 then Some 37 else None)"

text \<open>
  \<^verbatim>\<open>/\b\d+\b/\<close>: a run of digits with no word character before it, taken whole (after
  fewer digits the next character is a digit and there is no boundary), with no word
  character after it.
\<close>

definition matchNumber :: matcher where
  "matchNumber prev s =
     (let n = length (takeWhile isDigit s) in
      if 0 < n
         \<and> (case prev of None \<Rightarrow> True | Some p \<Rightarrow> \<not> isWordChar p)
         \<and> (case drop n s of [] \<Rightarrow> True | c # r \<Rightarrow> \<not> isWordChar c)
      then Some n else None)"

text \<open>\<^verbatim>\<open>/\s+/\<close>\<close>

definition matchSpace :: matcher where
  "matchSpace prev s =
     (let n = length (takeWhile isSpace s) in if 0 < n then Some n else None)"

definition trim :: "string \<Rightarrow> string" where
  "trim s = rev (dropWhile isSpace (rev (dropWhile isSpace s)))"

subsection \<open>Fingerprints and categories\<close>

text \<open>The chain of \<open>generateFingerprint\<close> up to \<^verbatim>\<open>trim()\<close>, and the whole of it.\<close>

definition normalizeText :: "string \<Rightarrow> string" where
  "normalizeText msg =
     trim
      (replaceAll matchSpace '' '' None 0
        (replaceAll matchNumber ''<n>'' None 0
          (replaceAll matchUuid ''/<uuid>'' None 0
            (replaceAll matchPort '':<port>'' None 0
              (replaceAll matchIp ''<ip>'' None 0
                (toLowerCase msg))))))"

definition generateFingerprint :: "string \<Rightarrow> string" where
  "generateFingerprint msg = take 100 (normalizeText msg)"

text \<open>\<^verbatim>\<open>s.includes(sub)\<close>\<close>

fun includesStr :: "string \<Rightarrow> string \<Rightarrow> bool" where
  "includesStr [] sub = (sub = [])"
| "includesStr (c # cs) sub = (take (length sub) (c # cs) = sub \<or> includesStr cs sub)"

definition categorizError :: "string \<Rightarrow> string" where
  "categorizError msg =
     (let lowerMsg = toLowerCase msg in
      if includesStr lowerMsg ''econnrefused'' \<or> includesStr lowerMsg ''connection'' then ''network''
      else if includesStr lowerMsg ''permission'' \<or> includesStr lowerMsg ''eacces'' then ''filesystem''
      else if includesStr lowerMsg ''not found'' \<or> includesStr lowerMsg ''enoent'' then ''filesystem''
      else if includesStr lowerMsg ''timeout'' then ''network''
      else if includesStr lowerMsg ''database'' \<or> includesStr lowerMsg ''sql'' then ''database''
      else if includesStr lowerMsg ''memory'' \<or> includesStr lowerMsg ''heap'' then ''memory''
      else ''general'')"

subsection \<open>New patterns\<close>

text \<open>
  \<open>generatePatternId\<close> (core/playbook.ts) on the value \<open>r\<close> that \<^verbatim>\<open>Math.random()\<close>
  returned, \<open>0 \<le> r < 1\<close>.
\<close>

definition padStart :: "nat \<Rightarrow> char \<Rightarrow> string \<Rightarrow> string" where
  "padStart n c s = replicate (n - length s) c @ s"

definition generatePatternId :: "real \<Rightarrow> string" where
  "generatePatternId r = ''slsm-'' @ padStart 3 CHR ''0'' (showNat (nat \<lfloor>r * 1000\<rfloor>))"

text \<open>\<open>createPattern\<close>: the defaults, then the overrides.\<close>

definition createPattern :: "real \<Rightarrow> (Pattern \<Rightarrow> Pattern) \<Rightarrow> Pattern" where
  "createPattern r overrides =
     overrides
       \<lparr>idP = generatePatternId r, fingerprint = [], pattern = [], severity = Medium,
        category = ''general'', title = [], symptoms = [], root_causes = [], fixesP = [],
        feedback = \<lparr>helpful = 0, harmful = 0\<rparr>\<rparr>"

record RecurringError =
  message :: string
  count :: int
  level :: string
  service :: "string option"
  firstSeen :: int
  lastSeen :: int
  rowFingerprint :: "string option"

record Suggestion =
  error :: RecurringError
  suggested :: Pattern
  isNew :: bool

text \<open>The characters that \<^verbatim>\<open>/[.*+?^${}()|[\]\\]/g\<close> matches; each gets a backslash in front.\<close>

definition regexMetaChars :: string where
  "regexMetaChars = ''.*+?^${}()|[]'' @ [CHR 0x5C]"

definition escapeRegex :: "string \<Rightarrow> string" where
  "escapeRegex s = concat (map (\<lambda>c. if c \<in> set regexMetaChars then [CHR 0x5C, c] else [c]) s)"

text \<open>The pattern that the loop of \<open>reflectCommand\<close> creates for a row that is not known.\<close>

definition newPattern :: "real \<Rightarrow> RecurringError \<Rightarrow> Pattern" where
  "newPattern r row =
     createPattern r (\<lambda>p. p
       \<lparr>fingerprint :=
          (case rowFingerprint row of
             None \<Rightarrow> generateFingerprint (message row)
           | Some fp \<Rightarrow> if fp = [] then generateFingerprint (message row) else fp),
        pattern := take 50 (escapeRegex (message row)) @ ''.*'',
        severity := (if count row \<ge> 10 then High else if count row \<ge> 5 then Medium else Low),
        category := categorizError (message row),
        title := take 60 (message row) @ (if length (message row) > 60 then ''...'' else []),
        symptoms := [message row],
        root_causes := [''Unknown - investigate logs''],
        fixesP := []\<rparr>)"

text \<open>The body of the loop for one row; \<open>r\<close> is what \<^verbatim>\<open>Math.random()\<close> returns if it is called.\<close>

definition reflectRow :: "regexEngine \<Rightarrow> Playbook \<Rightarrow> real \<Rightarrow> RecurringError \<Rightarrow> Suggestion" where
  "reflectRow rx playbook r row =
     (let matches = findMatchingPatterns rx playbook (message row) 1;
          isKnown = (length matches > 0 \<and> score (matches ! 0) > 80)
      in if \<not> isKnown
         then \<lparr>error = row, suggested = newPattern r row, isNew = True\<rparr>
         else \<lparr>error = row, suggested = matched (matches ! 0), isNew = False\<rparr>)"

text \<open>
  The loop over the rows. \<open>rnd k\<close> is the value of the call number \<open>k\<close> of
  \<^verbatim>\<open>Math.random()\<close>; a row that is new uses one call.
\<close>

fun reflectLoop :: "regexEngine \<Rightarrow> Playbook \<Rightarrow> (nat \<Rightarrow> real) \<Rightarrow> nat \<Rightarrow> RecurringError list \<Rightarrow> Suggestion list" where
  "reflectLoop rx playbook rnd k [] = []"
| "reflectLoop rx playbook rnd k (row # rows) =
     (let s = reflectRow rx playbook (rnd k) row
      in s # reflectLoop rx playbook rnd (if isNew s then Suc k else k) rows)"

text \<open>
  \<open>reflectCommand\<close> on the rows that the log store returned: the suggestions, and the
  playbook file afterwards.
\<close>

definition reflectCommand ::
  "regexEngine \<Rightarrow> (nat \<Rightarrow> real) \<Rightarrow> bool \<Rightarrow> Playbook option \<Rightarrow> RecurringError list
     \<Rightarrow> Suggestion list \<times> Playbook option" where
  "reflectCommand rx rnd dryRun file rows =
     (let playbook = loadPlaybook file;
          suggestions = reflectLoop rx playbook rnd 0 rows;
          newPatterns = map suggested (filter isNew suggestions)
      in (suggestions,
          if \<not> dryRun \<and> length newPatterns > 0
          then savePlaybook (playbook\<lparr>patterns := patterns playbook @ newPatterns\<rparr>)
          else file))"

subsection \<open>Texts without matches\<close>

text \<open>The character before the position after \<open>u\<close>, when \<open>prev\<close> is the one before \<open>u\<close>.\<close>

definition lastOpt :: "char option \<Rightarrow> string \<Rightarrow> char option" where
  "lastOpt prev u = (if u = [] then prev else Some (last u))"

text \<open>No match of \<open>m\<close> at any position of \<open>s\<close>, where \<open>prev\<close> is the character before \<open>s\<close>.\<close>

definition noMatch :: "matcher \<Rightarrow> char option \<Rightarrow> string \<Rightarrow> bool" where
  "noMatch m prev s = (\<forall>u v. s = u @ v \<and> v \<noteq> [] \<longrightarrow> m (lastOpt prev u) v = None)"

text \<open>The texts that the expression for IPv4 addresses matches.\<close>

definition ipText :: "string \<Rightarrow> bool" where
  "ipText M = (\<exists>d1 d2 d3 d4. M = d1 @ CHR ''.'' # d2 @ CHR ''.'' # d3 @ CHR ''.'' # d4
                 \<and> d1 \<noteq> [] \<and> d2 \<noteq> [] \<and> d3 \<noteq> [] \<and> d4 \<noteq> []
                 \<and> (\<forall>c \<in> set (d1 @ d2 @ d3 @ d4). isDigit c))"

text \<open>
  Whether the character before a position is a word character, which is all that \<^verbatim>\<open>\b\<close>
  reads of it, and the contexts that \<^verbatim>\<open>\b\<close> cannot tell apart.
\<close>

definition wordBefore :: "char option \<Rightarrow> bool" where
  "wordBefore p = (case p of None \<Rightarrow> False | Some c \<Rightarrow> isWordChar c)"

definition sameClass :: "char option \<Rightarrow> char option \<Rightarrow> bool" where
  "sameClass p q = (wordBefore p = wordBefore q)"

text \<open>Every white space character of the text is one space, with no white space after it.\<close>

fun spacesOk :: "string \<Rightarrow> bool" where
  "spacesOk [] = True"
| "spacesOk [c] = (isSpace c \<longrightarrow> c = CHR '' '')"
| "spacesOk (c # d # r) = ((isSpace c \<longrightarrow> c = CHR '' '' \<and> \<not> isSpace d) \<and> spacesOk (d # r))"

text \<open>The texts that \<open>toLowerCase\<close> leaves as they are.\<close>

definition lowered :: "string \<Rightarrow> bool" where
  "lowered s = (\<forall>c \<in> set s. toLowerChar c = c)"

text \<open>The texts that no stage of the normalization changes.\<close>

definition normalized :: "string \<Rightarrow> bool" where
  "normalized y =
     (lowered y \<and> noMatch matchIp None y \<and> noMatch matchPort None y \<and> noMatch matchUuid None y
      \<and> noMatch matchNumber None y \<and> spacesOk y \<and> trim y = y)"

section \<open>Numbers\<close>

text \<open>
  A number of the program is an IEEE 754 double. The finite doubles are modelled by the
  reals they denote, and an arithmetic operation of the program by the exact operation
  followed by the rounding \<open>rnd64\<close> to the nearest double, ties to the even significand:
  53 bits in the binade of the argument, whose exponent is at least \<open>- 1022\<close>, so that
  the numbers below \<open>2 powr - 1022\<close> are rounded to multiples of \<open>2 powr - 1074\<close>. Infinity,
  NaN and the sign of zero are not modelled: a result of \<open>2 powr 1024\<close> or more, or a
  division by an underflowed zero, is outside the model.
\<close>

definition roundEven :: "real \<Rightarrow> int" where
  "roundEven x =
     (let f = \<lfloor>x\<rfloor>; d = x - of_int f
      in if d < 1/2 then f else if 1/2 < d then f + 1 else if even f then f else f + 1)"

definition exponent64 :: "real \<Rightarrow> int" where
  "exponent64 x = max \<lfloor>log 2 \<bar>x\<bar>\<rfloor> (- 1022)"

definition quantum64 :: "real \<Rightarrow> real" where
  "quantum64 x = 2 powr of_int (exponent64 x - 52)"

definition rnd64 :: "real \<Rightarrow> real" where
  "rnd64 x = (if x = 0 then 0 else of_int (roundEven (x / quantum64 x)) * quantum64 x)"

text \<open>\<^verbatim>\<open>x + y\<close>, \<^verbatim>\<open>x * y\<close>, \<^verbatim>\<open>x / y\<close> and \<^verbatim>\<open>Math.sqrt(x)\<close>\<close>

definition fadd :: "real \<Rightarrow> real \<Rightarrow> real" where
  "fadd x y = rnd64 (x + y)"

definition fmul :: "real \<Rightarrow> real \<Rightarrow> real" where
  "fmul x y = rnd64 (x * y)"

definition fdiv :: "real \<Rightarrow> real \<Rightarrow> real" where
  "fdiv x y = rnd64 (x / y)"

definition fsqrt :: "real \<Rightarrow> real" where
  "fsqrt x = rnd64 (sqrt x)"

section \<open>The similarity index (core/embeddings.ts)\<close>

text \<open>
  A \<^verbatim>\<open>Map\<close> is the list of its entries in insertion order: \<^verbatim>\<open>get\<close> is
  \<^const>\<open>map_of\<close>, and \<^verbatim>\<open>set\<close> is \<^const>\<open>AList.update\<close>, which replaces the value
  of a key that is present and appends the entry otherwise.
\<close>

record TfIdfVector =
  terms :: "(string \<times> real) list"
  magnitude :: real



text \<open>
  \<open>computeIdf\<close> is over the exact reals: the language does not fix \<^verbatim>\<open>Math.log\<close> to the
  last place.
\<close>

definition computeIdf :: "string list list \<Rightarrow> string list \<Rightarrow> (string \<times> real) list" where
  "computeIdf documents vocabulary =
     (let docCount = length documents in
      foldl (\<lambda>idf term.
          let termDocCount = length (filter (\<lambda>doc. term \<in> set doc) documents)
          in AList.update term (ln ((real docCount + 1) / (real termDocCount + 1)) + 1) idf)
        [] vocabulary)"

text \<open>\<^verbatim>\<open>idf.get(term) || 1\<close>: 1 for a term that is absent, and for a stored value 0.\<close>

definition idfOrOne :: "(string \<times> real) list \<Rightarrow> string \<Rightarrow> real" where
  "idfOrOne idf term = (case map_of idf term of None \<Rightarrow> 1 | Some v \<Rightarrow> if v = 0 then 1 else v)"

definition toVector :: "(string \<times> real) list \<Rightarrow> (string \<times> real) list \<Rightarrow> TfIdfVector" where
  "toVector tf idf =
     (let (ts, sumSquares) =
            foldl (\<lambda>(ts, sumSquares) (term, tfValue).
                let idfValue = idfOrOne idf term;
                    tfidf = fmul tfValue idfValue
                in (AList.update term tfidf ts, fadd sumSquares (fmul tfidf tfidf)))
              ([], 0) tf
      in \<lparr>terms = ts, magnitude = fsqrt sumSquares\<rparr>)"

text \<open>The loop of \<open>cosineSimilarity\<close> over the entries of \<open>v1\<close>.\<close>

definition dotProduct :: "TfIdfVector \<Rightarrow> TfIdfVector \<Rightarrow> real" where
  "dotProduct v1 v2 =
     foldl (\<lambda>dot (term, value1).
         case map_of (terms v2) term of None \<Rightarrow> dot
         | Some value2 \<Rightarrow> fadd dot (fmul value1 value2))
       0 (terms v1)"

definition cosineSimilarity :: "TfIdfVector \<Rightarrow> TfIdfVector \<Rightarrow> real" where
  "cosineSimilarity v1 v2 =
     (if magnitude v1 = 0 \<or> magnitude v2 = 0 then 0
      else fdiv (dotProduct v1 v2) (fmul (magnitude v1) (magnitude v2)))"

text \<open>The weight of a term in a list of entries: 0 when the term is absent.\<close>

definition weight :: "(string \<times> real) list \<Rightarrow> string \<Rightarrow> real" where
  "weight xs t = (case map_of xs t of None \<Rightarrow> 0 | Some w \<Rightarrow> w)"

subsection \<open>The embeddings manager\<close>



text \<open>The loop that adds the squares of the values of a \<^verbatim>\<open>Map\<close>.\<close>

definition sumSquares :: "(string \<times> real) list \<Rightarrow> real" where
  "sumSquares ts = foldl (\<lambda>s (term, v). fadd s (fmul v v)) 0 ts"













section \<open>Fixtures of the test suite\<close>

text \<open>The pattern of matching.test.ts and the data of playbook.test.ts.\<close>

definition connRefused :: Pattern where
  "connRefused =
     \<lparr>idP = ''slsm-001'', fingerprint = ''conn-refused'', pattern = ''ECONNREFUSED'',
      severity = High, category = ''network'', title = ''Connection refused'',
      symptoms = [''ECONNREFUSED 127.0.0.1:5432''], root_causes = [''Service down''],
      fixesP = [], feedback = \<lparr>helpful = 0, harmful = 0\<rparr>\<rparr>"



text \<open>Rows of the log store.\<close>

definition econnRow :: RecurringError where
  "econnRow = \<lparr>message = ''ECONNREFUSED 127.0.0.1:5432'', count = 2, level = ''error'',
               service = Some ''db'', firstSeen = 0, lastSeen = 0, rowFingerprint = None\<rparr>"

definition diskRow :: RecurringError where
  "diskRow = \<lparr>message = ''disk full'', count = 12, level = ''error'',
              service = None, firstSeen = 0, lastSeen = 0, rowFingerprint = None\<rparr>"

definition heapRow :: RecurringError where
  "heapRow = \<lparr>message = ''heap exhausted'', count = 3, level = ''error'',
              service = None, firstSeen = 0, lastSeen = 0, rowFingerprint = None\<rparr>"

text \<open>An engine for literal patterns: the pattern matches a text that starts with it.\<close>

definition prefixEngine :: regexEngine where
  "prefixEngine p s = Some (take (length p) s = p)"




section \<open>Properties of the keyword matcher\<close>

lemma set_foldl_Set_add: "set (foldl Set_add acc xs) = set acc \<union> set xs"
  by (induction xs arbitrary: acc) (auto simp: Set_add_def)

lemma distinct_foldl_Set_add: "distinct acc \<Longrightarrow> distinct (foldl Set_add acc xs)"
  by (induction xs arbitrary: acc) (auto simp: Set_add_def)

lemma set_newSet: "set (newSet xs) = set xs"
  by (simp add: newSet_def set_foldl_Set_add)

lemma distinct_newSet: "distinct (newSet xs)"
  by (simp add: newSet_def distinct_foldl_Set_add)

lemma size_newSet: "length (newSet xs) = card (set xs)"
  using distinct_card [OF distinct_newSet, of xs] by (simp add: set_newSet)

lemma matches_newSet:
  "length (filter (\<lambda>word. word \<in> set ys) (newSet xs)) = card (set xs \<inter> set ys)"
proof -
  have "length (filter (\<lambda>word. word \<in> set ys) (newSet xs))
      = card (set (filter (\<lambda>word. word \<in> set ys) (newSet xs)))"
    by (rule distinct_card [symmetric]) (simp add: distinct_newSet)
  also have "set (filter (\<lambda>word. word \<in> set ys) (newSet xs)) = set xs \<inter> set ys"
    by (auto simp: set_newSet)
  finally show ?thesis .
qed

lemma calculateScore_Jaccard:
  "calculateScore ks1 ks2 =
     (if ks1 = [] \<or> ks2 = [] then 0
      else real (card (set ks1 \<inter> set ks2)) / real (card (set ks1 \<union> set ks2)) * 100)"
  by (simp add: calculateScore_def Let_def matches_newSet size_newSet set_newSet)

lemma calculateScore_range: "0 \<le> calculateScore ks1 ks2 \<and> calculateScore ks1 ks2 \<le> 100"
proof (cases "ks1 = [] \<or> ks2 = []")
  case True
  then show ?thesis by (auto simp: calculateScore_Jaccard)
next
  case False
  have "card (set ks1 \<inter> set ks2) \<le> card (set ks1 \<union> set ks2)"
    by (rule card_mono) auto
  moreover have "0 < card (set ks1 \<union> set ks2)"
    using False by (auto simp: card_gt_0_iff)
  ultimately have "real (card (set ks1 \<inter> set ks2)) * 100 / real (card (set ks1 \<union> set ks2)) \<le> 100"
    by (simp add: divide_le_eq)
  with False show ?thesis by (simp add: calculateScore_Jaccard)
qed

text \<open>
  C3. For any two keyword lists \<open>calculateScore\<close> is 0 when either list is empty, and
  otherwise 100 times the Jaccard similarity of the two sets of keywords (the size of the
  intersection over the size of the union); in every case it lies between 0 and 100.
\<close>

theorem calculateScore_is_Jaccard_percent:
  "calculateScore ks1 ks2 =
     (if ks1 = [] \<or> ks2 = [] then 0
      else real (card (set ks1 \<inter> set ks2)) / real (card (set ks1 \<union> set ks2)) * 100)
   \<and> 0 \<le> calculateScore ks1 ks2 \<and> calculateScore ks1 ks2 \<le> 100"
  using calculateScore_Jaccard [of ks1 ks2] calculateScore_range [of ks1 ks2] by blast

theorem calculateScore_is_Jaccard_percent_witness:
  "calculateScore [''disk'', ''full''] [''disk''] = 50 \<and> calculateScore [] [''disk''] = 0"
  using calculateScore_is_Jaccard_percent [of "[''disk'', ''full'']" "[''disk'']"]
    calculateScore_is_Jaccard_percent [of "[]" "[''disk'']"]
  by simp

lemma matchPattern_matched: "matchPattern rx ks q p = Some r \<Longrightarrow> matched r = p"
  by (auto simp: matchPattern_def Let_def split: if_splits)

lemma matchPattern_score_le: "matchPattern rx ks q p = Some r \<Longrightarrow> score r \<le> 100"
  using calculateScore_range by (auto simp: matchPattern_def Let_def split: if_splits)

lemma matchPattern_regex:
  "rx (pattern p) q = Some True \<Longrightarrow>
   matchPattern rx ks q p = Some \<lparr>matched = p, score = 100, matchedKeywords = ks\<rparr>"
  by (simp add: matchPattern_def)

lemma set_collectMatches:
  "set (collectMatches rx pb q) =
     {r. \<exists>p \<in> set (patterns pb). matchPattern rx (extractKeywords q) q p = Some r}"
  by (force simp: collectMatches_def map_filter_def image_iff)

lemma set_slice0_subset: "set (slice0 xs e) \<subseteq> set xs"
  by (auto simp: slice0_def dest: in_set_takeD)

lemma slice0_all: "int (length xs) \<le> e \<Longrightarrow> slice0 xs e = xs"
  by (simp add: slice0_def)

lemma set_findMatchingPatterns_subset:
  "set (findMatchingPatterns rx pb q limit) \<subseteq> set (collectMatches rx pb q)"
  using set_slice0_subset [of "sort_key (\<lambda>r. - score r) (collectMatches rx pb q)" limit]
  by (simp add: findMatchingPatterns_def)

lemma length_collectMatches: "length (collectMatches rx pb q) \<le> length (patterns pb)"
  by (simp add: collectMatches_def map_filter_def)

lemma findMatchingPatterns_all:
  assumes "int (length (patterns pb)) \<le> limit"
  shows "set (findMatchingPatterns rx pb q limit) = set (collectMatches rx pb q)"
proof -
  have "int (length (sort_key (\<lambda>r. - score r) (collectMatches rx pb q))) \<le> limit"
    using assms length_collectMatches [of rx pb q] by simp
  then show ?thesis
    by (simp add: findMatchingPatterns_def slice0_all)
qed

text \<open>
  C1. When the \<open>pattern\<close> field of a pattern of the playbook compiles as a
  case-insensitive regular expression that matches the query, the loop of
  \<open>findMatchingPatterns\<close> records that pattern with score exactly 100 and the query's
  own keywords (keyword scoring is skipped); no returned result scores more than 100, every
  returned result for that pattern is this record, and the record is returned whenever
  \<open>limit\<close> does not cut the list.
\<close>

theorem regex_match_scores_100:
  assumes "p \<in> set (patterns playbook)" and "rx (pattern p) q = Some True"
  shows "\<lparr>matched = p, score = 100, matchedKeywords = extractKeywords q\<rparr>
           \<in> set (collectMatches rx playbook q)
       \<and> (\<forall>r \<in> set (findMatchingPatterns rx playbook q limit).
            score r \<le> 100 \<and>
            (matched r = p \<longrightarrow>
               r = \<lparr>matched = p, score = 100, matchedKeywords = extractKeywords q\<rparr>))
       \<and> (int (length (patterns playbook)) \<le> limit \<longrightarrow>
            \<lparr>matched = p, score = 100, matchedKeywords = extractKeywords q\<rparr>
              \<in> set (findMatchingPatterns rx playbook q limit))"
proof -
  let ?e = "\<lparr>matched = p, score = 100, matchedKeywords = extractKeywords q\<rparr>"
  have in_all: "?e \<in> set (collectMatches rx playbook q)"
    using assms matchPattern_regex [of rx p q "extractKeywords q"]
    by (auto simp: set_collectMatches)
  have each: "score r \<le> 100 \<and> (matched r = p \<longrightarrow> r = ?e)"
    if "r \<in> set (findMatchingPatterns rx playbook q limit)" for r
  proof -
    from that set_findMatchingPatterns_subset
    have "r \<in> set (collectMatches rx playbook q)" by blast
    then obtain p' where p': "matchPattern rx (extractKeywords q) q p' = Some r"
      by (auto simp: set_collectMatches)
    have "r = ?e" if "matched r = p"
    proof -
      from p' that have "p' = p" by (auto dest: matchPattern_matched)
      with p' assms(2) show ?thesis by (simp add: matchPattern_regex)
    qed
    with p' show ?thesis by (auto dest: matchPattern_score_le)
  qed
  have "?e \<in> set (findMatchingPatterns rx playbook q limit)"
    if "int (length (patterns playbook)) \<le> limit"
    using in_all findMatchingPatterns_all [OF that] by simp
  with in_all each show ?thesis by blast
qed

theorem regex_match_scores_100_witness:
  "\<lparr>matched = connRefused, score = 100,
      matchedKeywords = extractKeywords ''ECONNREFUSED 127.0.0.1:5432''\<rparr>
     \<in> set (findMatchingPatterns (\<lambda>p s. if p = ''ECONNREFUSED'' then Some True else None)
              \<lparr>patterns = [connRefused]\<rparr> ''ECONNREFUSED 127.0.0.1:5432'' 10)"
  using regex_match_scores_100 [of connRefused "\<lparr>patterns = [connRefused]\<rparr>"
      "\<lambda>p s. if p = ''ECONNREFUSED'' then Some True else None" "''ECONNREFUSED 127.0.0.1:5432''" 10]
  by (simp add: connRefused_def)

section \<open>Properties of validation\<close>










section \<open>Properties of feedback\<close>

lemma find_indexOfId:
  "findPatternById pb pid = Some pat \<Longrightarrow>
     indexOfId pb pid < length (patterns pb) \<and> patterns pb ! indexOfId pb pid = pat \<and> idP pat = pid"
  unfolding findPatternById_def indexOfId_def
proof (induction "patterns pb" arbitrary: pb)
  case Nil then show ?case by simp
next
  case (Cons a x)
  show ?case
  proof (cases "idP a = pid")
    case True
    with Cons(2,3) show ?thesis by (auto simp: Cons(2)[symmetric])
  next
    case False
    with Cons(1)[of "\<lparr>patterns = x\<rparr>"] Cons(2,3) show ?thesis by (auto simp: Cons(2)[symmetric])
  qed
qed

lemma recordFeedback_counters:
  "helpful (feedback (recordFeedback p ty)) = helpful (feedback p) + (if ty = Helpful then 1 else 0)
 \<and> harmful (feedback (recordFeedback p ty)) = harmful (feedback p) + (if ty = Harmful then 1 else 0)"
  by (cases ty) simp_all

lemma recordFeedback_frame:
  "recordFeedback p ty = p\<lparr>feedback := feedback (recordFeedback p ty)\<rparr>"
  by (cases ty) simp_all

text \<open>
  C7. When no pattern of the stored playbook has the given id, \<open>markCommand\<close> ends with
  an error and the playbook file is what it was. When the feedback type is valid and the id
  is found, the file is rewritten with the first pattern of that id changed in its feedback
  only: the named counter is one higher, the other counter is the same. In every case all
  patterns keep their place and no counter of any pattern is lower afterwards.
\<close>

theorem markCommand_feedback:
  "(findPatternById (loadPlaybook file) pid = None \<longrightarrow>
      (\<exists>err. markCommand file pid fb = (Inl err, file)))
 \<and> (\<forall>ty pat. parseFeedback fb = Some ty \<and> findPatternById (loadPlaybook file) pid = Some pat \<longrightarrow>
      (let i = indexOfId (loadPlaybook file) pid; pat' = recordFeedback pat ty in
         i < length (patterns (loadPlaybook file)) \<and> patterns (loadPlaybook file) ! i = pat
       \<and> markCommand file pid fb = (Inr pat', Some \<lparr>patterns = (patterns (loadPlaybook file))[i := pat']\<rparr>)
       \<and> pat' = pat\<lparr>feedback := feedback pat'\<rparr>
       \<and> helpful (feedback pat') = helpful (feedback pat) + (if ty = Helpful then 1 else 0)
       \<and> harmful (feedback pat') = harmful (feedback pat) + (if ty = Harmful then 1 else 0)))
 \<and> length (patterns (loadPlaybook (snd (markCommand file pid fb)))) = length (patterns (loadPlaybook file))
 \<and> (\<forall>j < length (patterns (loadPlaybook file)).
      helpful (feedback (patterns (loadPlaybook file) ! j))
        \<le> helpful (feedback (patterns (loadPlaybook (snd (markCommand file pid fb))) ! j))
    \<and> harmful (feedback (patterns (loadPlaybook file) ! j))
        \<le> harmful (feedback (patterns (loadPlaybook (snd (markCommand file pid fb))) ! j)))"
proof -
  let ?pb = "loadPlaybook file"
  have notfound: "\<exists>err. markCommand file pid fb = (Inl err, file)"
    if "findPatternById ?pb pid = None"
    using that by (simp add: markCommand_def Let_def split: option.splits)
  have found: "let i = indexOfId ?pb pid; pat' = recordFeedback pat ty in
         i < length (patterns ?pb) \<and> patterns ?pb ! i = pat
       \<and> markCommand file pid fb = (Inr pat', Some \<lparr>patterns = (patterns ?pb)[i := pat']\<rparr>)
       \<and> pat' = pat\<lparr>feedback := feedback pat'\<rparr>
       \<and> helpful (feedback pat') = helpful (feedback pat) + (if ty = Helpful then 1 else 0)
       \<and> harmful (feedback pat') = harmful (feedback pat) + (if ty = Harmful then 1 else 0)"
    if "parseFeedback fb = Some ty" "findPatternById ?pb pid = Some pat" for ty pat
    using that find_indexOfId [OF that(2)] recordFeedback_counters [of pat ty]
      recordFeedback_frame [of pat ty]
    by (simp add: markCommand_def Let_def savePlaybook_def)
  have same: "snd (markCommand file pid fb) = file"
    if "parseFeedback fb = None \<or> findPatternById ?pb pid = None"
    using that by (auto simp: markCommand_def Let_def split: option.splits)
  have mono: "length (patterns (loadPlaybook (snd (markCommand file pid fb)))) = length (patterns ?pb)
    \<and> (\<forall>j < length (patterns ?pb).
      helpful (feedback (patterns ?pb ! j))
        \<le> helpful (feedback (patterns (loadPlaybook (snd (markCommand file pid fb))) ! j))
    \<and> harmful (feedback (patterns ?pb ! j))
        \<le> harmful (feedback (patterns (loadPlaybook (snd (markCommand file pid fb))) ! j)))"
  proof (cases "parseFeedback fb = None \<or> findPatternById ?pb pid = None")
    case True
    from same [OF this] show ?thesis by simp
  next
    case False
    then obtain ty pat where tp: "parseFeedback fb = Some ty" "findPatternById ?pb pid = Some pat"
      by auto
    from found [OF this] show ?thesis
      by (auto simp: Let_def loadPlaybook_def nth_list_update)
  qed
  from notfound found mono show ?thesis by blast
qed

theorem markCommand_feedback_witness:
  "markCommand (Some \<lparr>patterns = [connRefused]\<rparr>) ''slsm-001'' ''Helpful''
     = (Inr (connRefused\<lparr>feedback := \<lparr>helpful = 1, harmful = 0\<rparr>\<rparr>),
        Some \<lparr>patterns = [connRefused\<lparr>feedback := \<lparr>helpful = 1, harmful = 0\<rparr>\<rparr>]\<rparr>)
   \<and> (\<exists>err. markCommand (Some \<lparr>patterns = [connRefused]\<rparr>) ''slsm-999'' ''helpful''
          = (Inl err, Some \<lparr>patterns = [connRefused]\<rparr>))"
proof -
  have p: "parseFeedback ''Helpful'' = Some Helpful"
    by (simp add: parseFeedback_def toLowerCase_def toLowerChar_def upperChars_def lowerChars_def)
  have f: "findPatternById (loadPlaybook (Some \<lparr>patterns = [connRefused]\<rparr>)) ''slsm-001'' = Some connRefused"
    by (simp add: findPatternById_def loadPlaybook_def connRefused_def)
  have n: "findPatternById (loadPlaybook (Some \<lparr>patterns = [connRefused]\<rparr>)) ''slsm-999'' = None"
    by (simp add: findPatternById_def loadPlaybook_def connRefused_def)
  have i: "indexOfId \<lparr>patterns = [connRefused]\<rparr> ''slsm-001'' = 0"
    by (simp add: indexOfId_def connRefused_def)
  from markCommand_feedback [of "Some \<lparr>patterns = [connRefused]\<rparr>" "''slsm-001''" "''Helpful''"] p f
  have "markCommand (Some \<lparr>patterns = [connRefused]\<rparr>) ''slsm-001'' ''Helpful''
     = (Inr (recordFeedback connRefused Helpful),
        Some \<lparr>patterns = (patterns (loadPlaybook (Some \<lparr>patterns = [connRefused]\<rparr>)))
           [indexOfId (loadPlaybook (Some \<lparr>patterns = [connRefused]\<rparr>)) ''slsm-001'' := recordFeedback connRefused Helpful]\<rparr>)"
    by (simp add: Let_def)
  moreover have "recordFeedback connRefused Helpful = connRefused\<lparr>feedback := \<lparr>helpful = 1, harmful = 0\<rparr>\<rparr>"
    by (simp add: connRefused_def)
  moreover from markCommand_feedback [of "Some \<lparr>patterns = [connRefused]\<rparr>" "''slsm-999''" "''helpful''"] n
  have "\<exists>err. markCommand (Some \<lparr>patterns = [connRefused]\<rparr>) ''slsm-999'' ''helpful''
          = (Inl err, Some \<lparr>patterns = [connRefused]\<rparr>)"
    by blast
  ultimately show ?thesis by (simp add: i loadPlaybook_def)
qed

section \<open>Properties of extraction\<close>

lemma sort_key_hd_least:
  assumes "xs \<noteq> []"
  shows "hd (sort_key f xs) \<in> set xs \<and> (\<forall>x \<in> set xs. f (hd (sort_key f xs)) \<le> f x)"
proof -
  from assms have ne: "sort_key f xs \<noteq> []" by (metis length_sort length_0_conv)
  then obtain y ys where y: "sort_key f xs = y # ys" by (cases "sort_key f xs") auto
  have "sorted (map f (y # ys))" using sorted_sort_key [of f xs] y by simp
  then have "\<forall>z \<in> set (y # ys). f y \<le> f z" by auto
  moreover have "set (y # ys) = set xs" using set_sort [of f xs] y by simp
  ultimately show ?thesis using y by auto
qed

lemma best_match:
  "findMatchingPatterns rx pb q 1 = take 1 (sort_key (\<lambda>r. - score r) (collectMatches rx pb q))"
  by (simp add: findMatchingPatterns_def slice0_def)

lemma known_iff:
  "(length (findMatchingPatterns rx pb q 1) > 0 \<and> score (findMatchingPatterns rx pb q 1 ! 0) > 80)
     \<longleftrightarrow> (\<exists>r \<in> set (collectMatches rx pb q). 80 < score r)"
proof (cases "collectMatches rx pb q = []")
  case True
  then show ?thesis by (simp add: best_match)
next
  case False
  let ?s = "sort_key (\<lambda>r. - score r) (collectMatches rx pb q)"
  from False have ne: "?s \<noteq> []" by (metis length_sort length_0_conv)
  then obtain y ys where "?s = y # ys" by (cases ?s) auto
  then have first: "findMatchingPatterns rx pb q 1 ! 0 = hd ?s" "length (findMatchingPatterns rx pb q 1) > 0"
    by (simp_all add: best_match)
  from sort_key_hd_least [OF False, of "\<lambda>r. - score r"]
  have h: "hd ?s \<in> set (collectMatches rx pb q)"
    and m: "\<forall>r \<in> set (collectMatches rx pb q). score r \<le> score (hd ?s)" by auto
  have "80 < score (hd ?s) \<longleftrightarrow> (\<exists>r \<in> set (collectMatches rx pb q). 80 < score r)"
  proof
    assume "80 < score (hd ?s)"
    with h show "\<exists>r \<in> set (collectMatches rx pb q). 80 < score r" by blast
  next
    assume "\<exists>r \<in> set (collectMatches rx pb q). 80 < score r"
    then obtain r where "r \<in> set (collectMatches rx pb q)" "80 < score r" by blast
    with m have "score r \<le> score (hd ?s)" by blast
    with \<open>80 < score r\<close> show "80 < score (hd ?s)" by linarith
  qed
  with first show ?thesis by simp
qed

lemma known_best:
  assumes "\<exists>r \<in> set (collectMatches rx pb q). 80 < score r"
  shows "findMatchingPatterns rx pb q 1 ! 0 \<in> set (collectMatches rx pb q)
       \<and> 80 < score (findMatchingPatterns rx pb q 1 ! 0)
       \<and> (\<forall>r \<in> set (collectMatches rx pb q). score r \<le> score (findMatchingPatterns rx pb q 1 ! 0))"
proof -
  let ?s = "sort_key (\<lambda>r. - score r) (collectMatches rx pb q)"
  from assms have False: "collectMatches rx pb q \<noteq> []" by auto
  then have ne: "?s \<noteq> []" by (metis length_sort length_0_conv)
  then obtain y ys where "?s = y # ys" by (cases ?s) auto
  then have first: "findMatchingPatterns rx pb q 1 ! 0 = hd ?s"
    by (simp add: best_match)
  from sort_key_hd_least [OF False, of "\<lambda>r. - score r"]
  have h: "hd ?s \<in> set (collectMatches rx pb q)"
    and m: "\<forall>r \<in> set (collectMatches rx pb q). score r \<le> score (hd ?s)" by auto
  from assms obtain r where "r \<in> set (collectMatches rx pb q)" "80 < score r" by blast
  with m have "80 < score (hd ?s)" by force
  with h m show ?thesis unfolding first by blast
qed

lemma collectMatches_matched:
  "r \<in> set (collectMatches rx pb q) \<Longrightarrow> matched r \<in> set (patterns pb)"
  by (auto simp: set_collectMatches dest: matchPattern_matched)

lemma reflectRow_props:
  "error (reflectRow rx pb r row) = row
   \<and> (isNew (reflectRow rx pb r row) \<longleftrightarrow> \<not> (\<exists>r \<in> set (collectMatches rx pb (message row)). 80 < score r))
   \<and> (\<not> isNew (reflectRow rx pb r row) \<longrightarrow>
        suggested (reflectRow rx pb r row) \<in> set (patterns pb)
        \<and> (\<exists>b \<in> set (collectMatches rx pb (message row)).
              matched b = suggested (reflectRow rx pb r row) \<and> 80 < score b
              \<and> (\<forall>r' \<in> set (collectMatches rx pb (message row)). score r' \<le> score b)))
   \<and> (isNew (reflectRow rx pb r row) \<longrightarrow>
        suggested (reflectRow rx pb r row) = newPattern r row
        \<and> severity (suggested (reflectRow rx pb r row))
            = (if count row \<ge> 10 then High else if count row \<ge> 5 then Medium else Low))"
proof (cases "\<exists>r \<in> set (collectMatches rx pb (message row)). 80 < score r")
  case True
  then have k: "length (findMatchingPatterns rx pb (message row) 1) > 0
      \<and> score (findMatchingPatterns rx pb (message row) 1 ! 0) > 80"
    unfolding known_iff .
  from True known_best [of rx pb "message row"]
  have b: "findMatchingPatterns rx pb (message row) 1 ! 0 \<in> set (collectMatches rx pb (message row))"
      "80 < score (findMatchingPatterns rx pb (message row) 1 ! 0)"
      "\<forall>r \<in> set (collectMatches rx pb (message row)).
          score r \<le> score (findMatchingPatterns rx pb (message row) 1 ! 0)"
    by blast+
  have rr: "reflectRow rx pb r row
      = \<lparr>error = row, suggested = matched (findMatchingPatterns rx pb (message row) 1 ! 0), isNew = False\<rparr>"
    using k by (simp add: reflectRow_def Let_def)
  show ?thesis
    unfolding rr using True b collectMatches_matched [OF b(1)] by auto
next
  case False
  then have k: "\<not> (length (findMatchingPatterns rx pb (message row) 1) > 0
      \<and> score (findMatchingPatterns rx pb (message row) 1 ! 0) > 80)"
    unfolding known_iff .
  have rr: "reflectRow rx pb r row = \<lparr>error = row, suggested = newPattern r row, isNew = True\<rparr>"
    using k by (simp add: reflectRow_def Let_def)
  show ?thesis
    unfolding rr using False by (simp add: newPattern_def createPattern_def)
qed


lemma reflectLoop_rows:
  "map error (reflectLoop rx pb rnd k rows) = rows
   \<and> (\<forall>s \<in> set (reflectLoop rx pb rnd k rows). \<exists>r. s = reflectRow rx pb r (error s))"
proof (induction rows arbitrary: k)
  case Nil
  then show ?case by simp
next
  case (Cons row rows)
  have "error (reflectRow rx pb (rnd k) row) = row"
    using reflectRow_props [of rx pb "rnd k" row] by blast
  then have "\<exists>r. reflectRow rx pb (rnd k) row = reflectRow rx pb r (error (reflectRow rx pb (rnd k) row))"
    by auto
  with Cons.IH \<open>error (reflectRow rx pb (rnd k) row) = row\<close> show ?case
    by (simp add: Let_def)
qed

text \<open>
  C5. The suggestions of \<open>reflectCommand\<close> are one per row, in order. A row is known
  (not new) exactly when some match of its message against the playbook scores more than 80;
  the pattern attached to a known row is a pattern of the playbook, that of a match with the
  highest score. A new row gets a pattern whose severity is high for a count of at least
  10, medium for a count of at least 5, low otherwise. The patterns the playbook had are the
  first patterns of the playbook afterwards, unchanged.
\<close>

theorem reflect_classification:
  "let suggestions = fst (reflectCommand rx rnd dryRun file rows);
       playbook = loadPlaybook file
   in map error suggestions = rows
    \<and> (\<forall>s \<in> set suggestions.
         (isNew s \<longleftrightarrow> \<not> (\<exists>r \<in> set (collectMatches rx playbook (message (error s))). 80 < score r))
       \<and> (\<not> isNew s \<longrightarrow>
            suggested s \<in> set (patterns playbook)
            \<and> (\<exists>b \<in> set (collectMatches rx playbook (message (error s))).
                  matched b = suggested s \<and> 80 < score b
                  \<and> (\<forall>r' \<in> set (collectMatches rx playbook (message (error s))). score r' \<le> score b)))
       \<and> (isNew s \<longrightarrow>
            severity (suggested s)
              = (if count (error s) \<ge> 10 then High else if count (error s) \<ge> 5 then Medium else Low)))
    \<and> take (length (patterns playbook))
         (patterns (loadPlaybook (snd (reflectCommand rx rnd dryRun file rows)))) = patterns playbook"
proof -
  define pb where "pb = loadPlaybook file"
  define suggestions where "suggestions = reflectLoop rx pb rnd 0 rows"
  have fst: "fst (reflectCommand rx rnd dryRun file rows) = suggestions"
    by (simp add: reflectCommand_def Let_def suggestions_def pb_def)
  have rows: "map error suggestions = rows"
    unfolding suggestions_def using reflectLoop_rows [of rx pb rnd 0 rows] by blast
  have each: "(isNew s \<longleftrightarrow> \<not> (\<exists>r \<in> set (collectMatches rx pb (message (error s))). 80 < score r))
       \<and> (\<not> isNew s \<longrightarrow>
            suggested s \<in> set (patterns pb)
            \<and> (\<exists>b \<in> set (collectMatches rx pb (message (error s))).
                  matched b = suggested s \<and> 80 < score b
                  \<and> (\<forall>r' \<in> set (collectMatches rx pb (message (error s))). score r' \<le> score b)))
       \<and> (isNew s \<longrightarrow>
            severity (suggested s)
              = (if count (error s) \<ge> 10 then High else if count (error s) \<ge> 5 then Medium else Low))"
    if "s \<in> set suggestions" for s
  proof -
    from that reflectLoop_rows [of rx pb rnd 0 rows]
    obtain r where r: "s = reflectRow rx pb r (error s)" unfolding suggestions_def by blast
    from reflectRow_props [of rx pb r "error s"] show ?thesis
      unfolding r [symmetric] by blast
  qed
  have keep: "take (length (patterns pb))
         (patterns (loadPlaybook (snd (reflectCommand rx rnd dryRun file rows)))) = patterns pb"
    by (simp add: reflectCommand_def Let_def pb_def [symmetric] savePlaybook_def loadPlaybook_def)
      (simp add: pb_def loadPlaybook_def)
  from rows each keep show ?thesis
    unfolding Let_def fst pb_def [symmetric] by blast
qed

theorem reflect_classification_witness:
  "map isNew (fst (reflectCommand prefixEngine (\<lambda>k. 0) True (Some \<lparr>patterns = [connRefused]\<rparr>)
                     [econnRow, diskRow])) = [False, True]
   \<and> severity (suggested (fst (reflectCommand prefixEngine (\<lambda>k. 0) True
                     (Some \<lparr>patterns = [connRefused]\<rparr>) [econnRow, diskRow]) ! 1)) = High"
proof -
  define S where "S = fst (reflectCommand prefixEngine (\<lambda>k. 0) True (Some \<lparr>patterns = [connRefused]\<rparr>)
                     [econnRow, diskRow])"
  have pb: "loadPlaybook (Some \<lparr>patterns = [connRefused]\<rparr>) = \<lparr>patterns = [connRefused]\<rparr>"
    by (simp add: loadPlaybook_def)
  from reflect_classification [of prefixEngine "\<lambda>k. 0" True "Some \<lparr>patterns = [connRefused]\<rparr>"
      "[econnRow, diskRow]"]
  have E: "map error S = [econnRow, diskRow]"
    and A: "\<forall>s \<in> set S.
         (isNew s \<longleftrightarrow> \<not> (\<exists>r \<in> set (collectMatches prefixEngine \<lparr>patterns = [connRefused]\<rparr>
                                    (message (error s))). 80 < score r))
       \<and> (isNew s \<longrightarrow>
            severity (suggested s)
              = (if count (error s) \<ge> 10 then High else if count (error s) \<ge> 5 then Medium else Low))"
    unfolding Let_def S_def [symmetric] pb by blast+
  from E obtain s1 s2 where S: "S = [s1, s2]" and e: "error s1 = econnRow" "error s2 = diskRow"
    by (auto simp: map_eq_Cons_conv)
  have m: "prefixEngine (pattern connRefused) (message econnRow) = Some True"
    by (simp add: prefixEngine_def connRefused_def econnRow_def)
  have k1: "\<exists>r \<in> set (collectMatches prefixEngine \<lparr>patterns = [connRefused]\<rparr> (message econnRow)).
              80 < score r"
    using m matchPattern_regex [of prefixEngine connRefused "message econnRow"
        "extractKeywords (message econnRow)"]
    by (simp add: collectMatches_def map_filter_def)
  have q: "extractKeywords (message diskRow) = [''disk'', ''full'']"
    unfolding diskRow_def by code_simp
  have p: "extractKeywords (title connRefused @ CHR '' '' # join '' '' (symptoms connRefused))
         = [''connection'', ''refused'', ''econnrefused'', ''127'', ''5432'']"
    unfolding connRefused_def by code_simp
  have sc: "calculateScore [''disk'', ''full'']
              [''connection'', ''refused'', ''econnrefused'', ''127'', ''5432''] = 0"
    by (simp add: calculateScore_Jaccard)
  have n: "prefixEngine (pattern connRefused) (message diskRow) \<noteq> Some True"
    by (simp add: prefixEngine_def connRefused_def diskRow_def)
  have "matchPattern prefixEngine (extractKeywords (message diskRow)) (message diskRow) connRefused = None"
    using n by (simp add: matchPattern_def Let_def q p sc)
  then have k2: "collectMatches prefixEngine \<lparr>patterns = [connRefused]\<rparr> (message diskRow) = []"
    by (simp add: collectMatches_def map_filter_def)
  from A S e k1 k2 have "isNew s1 = False" "isNew s2 = True" by auto
  moreover from A S e \<open>isNew s2 = True\<close> have "severity (suggested s2) = High"
    by (simp add: diskRow_def)
  ultimately show ?thesis unfolding S_def [symmetric] S by simp
qed


lemma newPattern_id: "idP (newPattern r row) = generatePatternId r"
  by (simp add: newPattern_def createPattern_def)

lemma reflectRow_empty_playbook:
  "reflectRow rx \<lparr>patterns = []\<rparr> r row = \<lparr>error = row, suggested = newPattern r row, isNew = True\<rparr>"
  by (simp add: reflectRow_def findMatchingPatterns_def collectMatches_def map_filter_def slice0_def)

text \<open>
  C8. Uniqueness of pattern ids is not preserved by extraction: on an empty playbook, two
  new rows whose calls of \<^verbatim>\<open>Math.random()\<close> return 0.0071 and 0.0079 both get the id
  slsm-007, and the saved playbook holds the two patterns with the same id.
\<close>

theorem generated_ids_collide:
  "map idP (patterns (loadPlaybook (snd (reflectCommand prefixEngine
       (\<lambda>k. if k = 0 then 71 / 10000 else 79 / 10000) False None [diskRow, heapRow]))))
     = [''slsm-007'', ''slsm-007'']
   \<and> \<not> distinct (map idP (patterns (loadPlaybook (snd (reflectCommand prefixEngine
       (\<lambda>k. if k = 0 then 71 / 10000 else 79 / 10000) False None [diskRow, heapRow])))))"
proof -
  have a: "generatePatternId (71 / 10000) = ''slsm-007''"
    by (simp add: generatePatternId_def padStart_def showNat.simps digitChars_def numeral_2_eq_2)
  have b: "generatePatternId (79 / 10000) = ''slsm-007''"
    by (simp add: generatePatternId_def padStart_def showNat.simps digitChars_def numeral_2_eq_2)
  have "map idP (patterns (loadPlaybook (snd (reflectCommand prefixEngine
       (\<lambda>k. if k = 0 then 71 / 10000 else 79 / 10000) False None [diskRow, heapRow]))))
     = [''slsm-007'', ''slsm-007'']"
    by (simp add: reflectCommand_def loadPlaybook_def savePlaybook_def Let_def
        reflectRow_empty_playbook newPattern_id a b)
  then show ?thesis by simp
qed

section \<open>Properties of the IDF table\<close>

lemma map_of_foldl_update:
  "map_of (foldl (\<lambda>al k. AList.update k (f k) al) acc ks) k =
     (if k \<in> set ks then Some (f k) else map_of acc k)"
  by (induction ks arbitrary: acc) (auto simp: update_conv')

lemma computeIdf_lookup:
  "t \<in> set vocabulary \<Longrightarrow>
   map_of (computeIdf documents vocabulary) t =
     Some (ln ((real (length documents) + 1)
               / (real (length (filter (\<lambda>doc. t \<in> set doc) documents)) + 1)) + 1)"
  using map_of_foldl_update [of "\<lambda>t. ln ((real (length documents) + 1)
       / (real (length (filter (\<lambda>doc. t \<in> set doc) documents)) + 1)) + 1" "[]" vocabulary t]
  by (simp add: computeIdf_def Let_def)

lemma smoothed_idf_bounds:
  assumes "df \<le> N"
  shows "1 \<le> ln ((real N + 1) / (real df + 1)) + 1"
    and "ln ((real N + 1) / (real df + 1)) + 1 \<le> ln (real N + 1) + 1"
proof -
  have "1 \<le> (real N + 1) / (real df + 1)"
    using assms by (simp add: le_divide_eq)
  then show "1 \<le> ln ((real N + 1) / (real df + 1)) + 1"
    by simp
  have "(real N + 1) / (real df + 1) \<le> real N + 1"
    by (simp add: divide_le_eq mult_le_cancel_left1)
  moreover have "0 < (real N + 1) / (real df + 1)" by simp
  ultimately have "ln ((real N + 1) / (real df + 1)) \<le> ln (real N + 1)"
    by (subst ln_le_cancel_iff) simp_all
  then show "ln ((real N + 1) / (real df + 1)) + 1 \<le> ln (real N + 1) + 1" by simp
qed

text \<open>
  C9. For every list of N documents and every term of the vocabulary, with df the number
  of documents that contain the term, the IDF table holds ln((N+1)/(df+1)) + 1 for the term.
  The value is strictly positive: it is at least 1 and at most ln(N+1) + 1, also when
  df = 0 and when df = N.
\<close>

theorem computeIdf_smoothed_positive:
  "\<forall>t \<in> set vocabulary.
     (let N = length documents;
          df = length (filter (\<lambda>doc. t \<in> set doc) documents);
          v = ln ((real N + 1) / (real df + 1)) + 1
      in map_of (computeIdf documents vocabulary) t = Some v
         \<and> 0 < v \<and> 1 \<le> v \<and> v \<le> ln (real N + 1) + 1)"
proof
  fix t assume t: "t \<in> set vocabulary"
  let ?v = "ln ((real (length documents) + 1)
                / (real (length (filter (\<lambda>doc. t \<in> set doc) documents)) + 1)) + 1"
  have "length (filter (\<lambda>doc. t \<in> set doc) documents) \<le> length documents" by simp
  from smoothed_idf_bounds [OF this]
  have lo: "1 \<le> ?v" and hi: "?v \<le> ln (real (length documents) + 1) + 1" .
  from lo have pos: "0 < ?v" by linarith
  show "let N = length documents;
          df = length (filter (\<lambda>doc. t \<in> set doc) documents);
          v = ln ((real N + 1) / (real df + 1)) + 1
      in map_of (computeIdf documents vocabulary) t = Some v
         \<and> 0 < v \<and> 1 \<le> v \<and> v \<le> ln (real N + 1) + 1"
    unfolding Let_def using computeIdf_lookup [OF t, of documents] lo hi pos by blast
qed

theorem computeIdf_smoothed_positive_witness:
  "map_of (computeIdf [[''disk'', ''full''], [''disk'']] [''disk'', ''full'', ''heap'']) ''disk'' = Some 1
   \<and> map_of (computeIdf [[''disk'', ''full''], [''disk'']] [''disk'', ''full'', ''heap'']) ''heap''
       = Some (ln 3 + 1)"
  using computeIdf_smoothed_positive [of "[''disk'', ''full'', ''heap'']" "[[''disk'', ''full''], [''disk'']]",
          THEN bspec, of "''disk''"]
    computeIdf_smoothed_positive [of "[''disk'', ''full'', ''heap'']" "[[''disk'', ''full''], [''disk'']]",
          THEN bspec, of "''heap''"]
  by (simp add: Let_def)

section \<open>Properties of fingerprints\<close>

subsection \<open>Replacement on a text without matches\<close>


lemma lastOpt_simps [simp]:
  "lastOpt prev [] = prev"
  "lastOpt prev (u @ [c]) = Some c"
  "lastOpt prev (c # u) = lastOpt (Some c) u"
  by (simp_all add: lastOpt_def)

lemma lastOpt_append: "lastOpt prev (u @ v) = lastOpt (lastOpt prev u) v"
  by (simp add: lastOpt_def)

lemma replaceAll_skip:
  "replaceAll m rep prev k s = replaceAll m rep (lastOpt prev (take k s)) 0 (drop k s)"
proof (induction s arbitrary: k prev)
  case Nil
  then show ?case by simp
next
  case (Cons c cs)
  show ?case
  proof (cases k)
    case 0
    then show ?thesis by simp
  next
    case (Suc k')
    with Cons.IH [of "Some c" k'] show ?thesis by simp
  qed
qed

lemma replaceAll_match:
  assumes "m prev s = Some n" and "0 < n" and "s \<noteq> []"
  shows "replaceAll m rep prev 0 s = rep @ replaceAll m rep (lastOpt prev (take n s)) 0 (drop n s)"
proof (cases s)
  case Nil
  with assms(3) show ?thesis by simp
next
  case (Cons c cs)
  from assms(2) obtain n' where n: "n = Suc n'" by (cases n) auto
  with assms(1) Cons show ?thesis
    using replaceAll_skip [of m rep "Some c" n' cs] by simp
qed

lemma replaceAll_copy:
  assumes "m prev (c # cs) = None"
  shows "replaceAll m rep prev 0 (c # cs) = c # replaceAll m rep (Some c) 0 cs"
  using assms by simp

lemma noMatch_Nil [simp]: "noMatch m prev []"
  by (simp add: noMatch_def)

lemma noMatch_Cons:
  "noMatch m prev (c # cs) \<longleftrightarrow> m prev (c # cs) = None \<and> noMatch m (Some c) cs"
proof
  assume a: "noMatch m prev (c # cs)"
  have "m prev (c # cs) = None" using a [unfolded noMatch_def, rule_format, of "[]" "c # cs"] by simp
  moreover have "noMatch m (Some c) cs"
    unfolding noMatch_def
  proof (intro allI impI)
    fix u v assume "cs = u @ v \<and> v \<noteq> []"
    then show "m (lastOpt (Some c) u) v = None"
      using a [unfolded noMatch_def, rule_format, of "c # u" v] by simp
  qed
  ultimately show "m prev (c # cs) = None \<and> noMatch m (Some c) cs" by simp
next
  assume a: "m prev (c # cs) = None \<and> noMatch m (Some c) cs"
  show "noMatch m prev (c # cs)"
    unfolding noMatch_def
  proof (intro allI impI)
    fix u v assume uv: "c # cs = u @ v \<and> v \<noteq> []"
    show "m (lastOpt prev u) v = None"
    proof (cases u)
      case Nil
      with uv a show ?thesis by simp
    next
      case (Cons d u')
      with uv have "cs = u' @ v" "d = c" by simp_all
      with a uv Cons show ?thesis by (simp add: noMatch_def)
    qed
  qed
qed

lemma noMatch_fixpoint: "noMatch m prev s \<Longrightarrow> replaceAll m rep prev 0 s = s"
  by (induction s arbitrary: prev) (simp_all add: noMatch_Cons)

lemma noMatch_append:
  "noMatch m prev (a @ b) \<longleftrightarrow>
     (\<forall>a1 a2. a = a1 @ a2 \<and> a2 \<noteq> [] \<longrightarrow> m (lastOpt prev a1) (a2 @ b) = None)
     \<and> noMatch m (lastOpt prev a) b"
proof (induction a arbitrary: prev)
  case Nil
  then show ?case by simp
next
  case (Cons c a)
  have "(\<forall>a1 a2. c # a = a1 @ a2 \<and> a2 \<noteq> [] \<longrightarrow> m (lastOpt prev a1) (a2 @ b) = None)
     \<longleftrightarrow> m prev (c # a @ b) = None
         \<and> (\<forall>a1 a2. a = a1 @ a2 \<and> a2 \<noteq> [] \<longrightarrow> m (lastOpt (Some c) a1) (a2 @ b) = None)"
    (is "?L \<longleftrightarrow> ?R")
  proof
    assume l: ?L
    have "m prev (c # a @ b) = None" using l [rule_format, of "[]" "c # a"] by simp
    moreover have "m (lastOpt (Some c) a1) (a2 @ b) = None" if "a = a1 @ a2 \<and> a2 \<noteq> []" for a1 a2
      using l [rule_format, of "c # a1" a2] that by simp
    ultimately show ?R by blast
  next
    assume r: ?R
    show ?L
    proof (intro allI impI)
      fix a1 a2 assume h: "c # a = a1 @ a2 \<and> a2 \<noteq> []"
      show "m (lastOpt prev a1) (a2 @ b) = None"
      proof (cases a1)
        case Nil
        with h r show ?thesis by auto
      next
        case (Cons d a1')
        with h have "a = a1' @ a2" "d = c" by simp_all
        with r h Cons show ?thesis by simp
      qed
    qed
  qed
  with Cons.IH [of "Some c"] show ?case by (simp add: noMatch_Cons)
qed


subsection \<open>A stage keeps a text free of matches\<close>

lemma lastOpt_nonempty: "u \<noteq> [] \<Longrightarrow> lastOpt p u = Some (last u)"
  by (simp add: lastOpt_def)

lemma stage_noMatch_general:
  fixes mi mj :: matcher and eqv :: "char option \<Rightarrow> char option \<Rightarrow> bool"
  assumes wf: "\<And>p s n. mj p s = Some n \<Longrightarrow> 0 < n \<and> n \<le> length s"
    and rep: "rep \<noteq> []"
    and CC: "\<And>p p' v. eqv p p' \<Longrightarrow> mi p v = mi p' v"
    and B1: "\<And>p s n. mj p s = Some n \<Longrightarrow>
               eqv (Some (last (take n s))) (Some (last rep)) \<or> drop n s = []
               \<or> (\<forall>p t. mi p (hd (drop n s) # t) = None)"
    and B2: "\<And>p r1 r2 t. rep = r1 @ r2 \<Longrightarrow> r2 \<noteq> [] \<Longrightarrow> mi p (r2 @ t) = None"
    and T: "\<And>p a2 s n t. a2 \<noteq> [] \<Longrightarrow> mj (Some (last a2)) s = Some n \<Longrightarrow>
               mi p (a2 @ s) = None \<Longrightarrow> mi p (a2 @ rep @ t) = None"
  shows "(\<forall>u v. s = u @ v \<and> v \<noteq> [] \<and> mj (lastOpt (lastOpt pin a) u) v = None
              \<longrightarrow> mi (lastOpt (lastOpt pin a) u) v = None) \<Longrightarrow>
         (\<forall>a1 a2. a = a1 @ a2 \<and> a2 \<noteq> [] \<longrightarrow> mi (lastOpt pin a1) (a2 @ s) = None) \<Longrightarrow>
         (eqv pin pout \<or> a @ s = [] \<or> (\<forall>p t. mi p (hd (a @ s) # t) = None)) \<Longrightarrow>
         noMatch mi pout (a @ replaceAll mj rep (lastOpt pin a) 0 s)"
proof (induction "length s" arbitrary: s a pin pout rule: less_induct)
  case less
  note A2 = less.prems(1) and A3 = less.prems(2) and A4 = less.prems(3)
  \<comment> \<open>a match at the head of \<open>a\<close> under either context\<close>
  have head: "mi (lastOpt pout a1) w = None"
    if "a = a1 @ a2" "a2 \<noteq> []" "mi (lastOpt pin a1) w = None" "\<exists>t. w = a2 @ t" for a1 a2 w
  proof (cases "a1 = []")
    case False
    then show ?thesis using that(3) by (simp add: lastOpt_nonempty)
  next
    case True
    from A4 show ?thesis
    proof (elim disjE)
      assume "eqv pin pout"
      from CC [OF this] that(3) True show ?thesis by simp
    next
      assume "a @ s = []"
      with that(1,2) show ?thesis by simp
    next
      assume dead: "\<forall>p t. mi p (hd (a @ s) # t) = None"
      from that(1,2,4) True obtain t where "w = hd (a @ s) # t"
        by (cases a2) auto
      with dead show ?thesis by simp
    qed
  qed
  show ?case
  proof (cases s)
    case Nil
    have "mi (lastOpt pout a1) (a2 @ []) = None" if "a = a1 @ a2 \<and> a2 \<noteq> []" for a1 a2
    proof -
      from A3 that Nil have "mi (lastOpt pin a1) a2 = None" by simp
      with head [of a1 a2 a2] that show ?thesis by simp
    qed
    then have "noMatch mi pout (a @ [])"
      unfolding noMatch_append by simp
    with Nil show ?thesis by simp
  next
    case (Cons c cs)
    let ?ctx = "lastOpt pin a"
    show ?thesis
    proof (cases "mj ?ctx s")
      case None
      have out: "a @ replaceAll mj rep ?ctx 0 s
                 = (a @ [c]) @ replaceAll mj rep (lastOpt pin (a @ [c])) 0 cs"
        using None Cons by simp
      have len: "length cs < length s" using Cons by simp
      have A2': "\<forall>u v. cs = u @ v \<and> v \<noteq> [] \<and> mj (lastOpt (lastOpt pin (a @ [c])) u) v = None
              \<longrightarrow> mi (lastOpt (lastOpt pin (a @ [c])) u) v = None"
      proof (intro allI impI)
        fix u v assume h: "cs = u @ v \<and> v \<noteq> [] \<and> mj (lastOpt (lastOpt pin (a @ [c])) u) v = None"
        then have "s = (c # u) @ v \<and> v \<noteq> [] \<and> mj (lastOpt ?ctx (c # u)) v = None"
          using Cons by simp
        with A2 have "mi (lastOpt ?ctx (c # u)) v = None" by blast
        then show "mi (lastOpt (lastOpt pin (a @ [c])) u) v = None" by simp
      qed
      have A3': "\<forall>a1 a2. a @ [c] = a1 @ a2 \<and> a2 \<noteq> [] \<longrightarrow> mi (lastOpt pin a1) (a2 @ cs) = None"
      proof (intro allI impI)
        fix a1 a2 assume h: "a @ [c] = a1 @ a2 \<and> a2 \<noteq> []"
        then obtain a2' x where a2: "a2 = a2' @ [x]" by (cases a2 rule: rev_cases) auto
        with h have eq: "a = a1 @ a2'" "x = c" by simp_all
        show "mi (lastOpt pin a1) (a2 @ cs) = None"
        proof (cases "a2' = []")
          case True
          with eq a2 have "a1 = a" "a2 = [c]" by simp_all
          moreover from A2 None Cons have "mi ?ctx (c # cs) = None"
            by (metis append_Nil lastOpt_simps(1) list.distinct(1))
          ultimately show ?thesis by simp
        next
          case False
          with A3 eq have "mi (lastOpt pin a1) (a2' @ s) = None" by blast
          then show ?thesis using a2 eq Cons by simp
        qed
      qed
      have A4': "eqv pin pout \<or> (a @ [c]) @ cs = [] \<or> (\<forall>p t. mi p (hd ((a @ [c]) @ cs) # t) = None)"
        using A4 Cons by simp
      from less.hyps [of cs pin "a @ [c]" pout, OF len A2' A3' A4'] show ?thesis unfolding out .
    next
      case (Some n)
      from wf [OF Some] have n: "0 < n" "n \<le> length s" by simp_all
      define s' where "s' = drop n s"
      define pin2 where "pin2 = Some (last (take n s))"
      define o' where "o' = replaceAll mj rep pin2 0 s'"
      have tk: "take n s \<noteq> []" using n Cons by auto
      have split: "s = take n s @ s'" by (simp add: s'_def)
      have "s \<noteq> []" using Cons by simp
      from replaceAll_match [where m = mj and prev = ?ctx and s = s and n = n and rep = rep,
          OF Some n(1) this]
      have out: "replaceAll mj rep ?ctx 0 s = rep @ o'"
        by (simp add: o'_def s'_def pin2_def lastOpt_nonempty [OF tk])
      have len: "length s' < length s" using n Cons by (simp add: s'_def)
      have A2'': "\<forall>u v. s' = u @ v \<and> v \<noteq> [] \<and> mj (lastOpt (lastOpt pin2 []) u) v = None
              \<longrightarrow> mi (lastOpt (lastOpt pin2 []) u) v = None"
      proof (intro allI impI)
        fix u v assume h: "s' = u @ v \<and> v \<noteq> [] \<and> mj (lastOpt (lastOpt pin2 []) u) v = None"
        have ctx: "lastOpt ?ctx (take n s @ u) = lastOpt pin2 u"
          by (simp add: lastOpt_append lastOpt_nonempty [OF tk] pin2_def)
        from h split have "s = (take n s @ u) @ v" by simp
        with A2 h ctx have "mi (lastOpt ?ctx (take n s @ u)) v = None"
          by (metis lastOpt_simps(1))
        with ctx show "mi (lastOpt (lastOpt pin2 []) u) v = None" by simp
      qed
      have A3'': "\<forall>a1 a2. [] = a1 @ a2 \<and> a2 \<noteq> [] \<longrightarrow> mi (lastOpt pin2 a1) (a2 @ s') = None"
        by simp
      have A4'': "eqv pin2 (Some (last rep)) \<or> [] @ s' = [] \<or> (\<forall>p t. mi p (hd ([] @ s') # t) = None)"
        using B1 [OF Some] by (simp add: pin2_def s'_def)
      from less.hyps [of s' pin2 "[]" "Some (last rep)", OF len A2'' A3'' A4'']
      have IH: "noMatch mi (Some (last rep)) o'" by (simp add: o'_def)
      have ctxa: "a2 \<noteq> [] \<Longrightarrow> a = a1 @ a2 \<Longrightarrow> ?ctx = Some (last a2)" for a1 a2
        by (simp add: lastOpt_def)
      have part_a: "mi (lastOpt pout a1) (a2 @ rep @ o') = None" if h: "a = a1 @ a2 \<and> a2 \<noteq> []" for a1 a2
      proof -
        from A3 h have "mi (lastOpt pin a1) (a2 @ s) = None" by blast
        moreover from ctxa [of a2 a1] h Some have "mj (Some (last a2)) s = Some n" by simp
        ultimately have "mi (lastOpt pin a1) (a2 @ rep @ o') = None"
          using T [of a2 s n "lastOpt pin a1" o'] h by blast
        with head [of a1 a2 "a2 @ rep @ o'"] h show ?thesis by blast
      qed
      have part_rep: "mi (lastOpt (lastOpt pout a) r1) (r2 @ o') = None"
        if "rep = r1 @ r2 \<and> r2 \<noteq> []" for r1 r2
        using B2 [of r1 r2 _ o'] that by blast
      have "noMatch mi (lastOpt pout a) (rep @ o')"
        unfolding noMatch_append [of mi _ rep o']
        using part_rep IH by (simp add: lastOpt_nonempty [OF rep])
      then have "noMatch mi pout (a @ rep @ o')"
        unfolding noMatch_append [of mi pout a "rep @ o'"] using part_a by blast
      then show ?thesis unfolding out .
    qed
  qed
qed


subsection \<open>IPv4 addresses\<close>

lemma digit_not_dot: "\<not> isDigit CHR ''.''"
  by (simp add: isDigit_def digitChars_def)

lemma isDigit_isWordChar: "isDigit c \<Longrightarrow> isWordChar c"
  by (simp add: isDigit_def isWordChar_def)

lemma isSpace_not_word: "isSpace c \<Longrightarrow> \<not> isWordChar c"
  by (auto simp: isSpace_def spaceChars_def isWordChar_def lowerChars_def upperChars_def digitChars_def)

lemma isSpace_not_digit: "isSpace c \<Longrightarrow> \<not> isDigit c"
  using isSpace_not_word isDigit_isWordChar by blast

lemma takeWhile_all: "\<forall>c \<in> set d. P c \<Longrightarrow> (t = [] \<or> \<not> P (hd t)) \<Longrightarrow> takeWhile P (d @ t) = d"
  by (induction d) (auto simp: takeWhile_eq_Nil_iff)

lemma dropWhile_all: "\<forall>c \<in> set d. P c \<Longrightarrow> (t = [] \<or> \<not> P (hd t)) \<Longrightarrow> dropWhile P (d @ t) = t"
  by (induction d) (auto simp: dropWhile_eq_self_iff)

lemma digitsDot_Some:
  "digitsDot s = Some r \<longleftrightarrow> (\<exists>d. d \<noteq> [] \<and> (\<forall>c \<in> set d. isDigit c) \<and> s = d @ CHR ''.'' # r)"
proof
  assume a: "digitsDot s = Some r"
  then have "takeWhile isDigit s \<noteq> []" "dropWhile isDigit s = CHR ''.'' # r"
    by (auto simp: digitsDot_def split: list.splits if_splits)
  moreover have "s = takeWhile isDigit s @ dropWhile isDigit s" by simp
  moreover have "\<forall>c \<in> set (takeWhile isDigit s). isDigit c" by (auto dest: set_takeWhileD)
  ultimately show "\<exists>d. d \<noteq> [] \<and> (\<forall>c \<in> set d. isDigit c) \<and> s = d @ CHR ''.'' # r"
    by metis
next
  assume "\<exists>d. d \<noteq> [] \<and> (\<forall>c \<in> set d. isDigit c) \<and> s = d @ CHR ''.'' # r"
  then obtain d where d: "d \<noteq> []" "\<forall>c \<in> set d. isDigit c" "s = d @ CHR ''.'' # r" by blast
  have "takeWhile isDigit s = d" "dropWhile isDigit s = CHR ''.'' # r"
    using takeWhile_all [OF d(2), of "CHR ''.'' # r"] dropWhile_all [OF d(2), of "CHR ''.'' # r"]
    by (simp_all add: d(3) digit_not_dot)
  with d(1) show "digitsDot s = Some r" by (simp add: digitsDot_def)
qed

lemma take_length_append: "take (length xs) (xs @ ys) = xs"
  by simp

lemma drop_length_append: "drop (length xs) (xs @ ys) = ys"
  by simp

lemma ipTextI:
  "d1 \<noteq> [] \<Longrightarrow> d2 \<noteq> [] \<Longrightarrow> d3 \<noteq> [] \<Longrightarrow> d4 \<noteq> [] \<Longrightarrow>
   \<forall>c \<in> set (d1 @ d2 @ d3 @ d4). isDigit c \<Longrightarrow>
   ipText (d1 @ CHR ''.'' # d2 @ CHR ''.'' # d3 @ CHR ''.'' # d4)"
  unfolding ipText_def by blast

lemma matchIp_sound:
  assumes "matchIp p s = Some n"
  shows "0 < n \<and> n \<le> length s \<and> ipText (take n s)"
proof -
  from assms obtain r1 r2 r3 where r: "digitsDot s = Some r1" "digitsDot r1 = Some r2"
      "digitsDot r2 = Some r3" "takeWhile isDigit r3 \<noteq> []"
      "n = length s - length (dropWhile isDigit r3)"
    by (auto simp: matchIp_def split: option.splits if_splits)
  from r(1-3) obtain d1 d2 d3 where d: "d1 \<noteq> []" "d2 \<noteq> []" "d3 \<noteq> []"
      "\<forall>c \<in> set d1. isDigit c" "\<forall>c \<in> set d2. isDigit c" "\<forall>c \<in> set d3. isDigit c"
      "s = d1 @ CHR ''.'' # r1" "r1 = d2 @ CHR ''.'' # r2" "r2 = d3 @ CHR ''.'' # r3"
    unfolding digitsDot_Some by blast
  define d4 where "d4 = takeWhile isDigit r3"
  define t where "t = dropWhile isDigit r3"
  have r3: "r3 = d4 @ t" by (simp add: d4_def t_def)
  have d4: "d4 \<noteq> []" "\<forall>c \<in> set d4. isDigit c"
    using r(4) by (auto simp: d4_def dest: set_takeWhileD)
  let ?M = "d1 @ CHR ''.'' # d2 @ CHR ''.'' # d3 @ CHR ''.'' # d4"
  have s: "s = ?M @ t" using d(7-9) r3 by simp
  have n: "n = length ?M" using r(5) unfolding t_def [symmetric] by (simp add: s)
  have "take (length ?M) (?M @ t) = ?M" by (rule take_length_append)
  then have "take n s = ?M" unfolding n s .
  moreover have "ipText ?M" using d(1-6) d4 by (intro ipTextI) auto
  ultimately show ?thesis using n s d(1) by simp
qed

lemma matchIp_complete:
  assumes "ipText M"
  shows "matchIp p (M @ t) \<noteq> None"
proof -
  from assms obtain d1 d2 d3 d4 where M: "M = d1 @ CHR ''.'' # d2 @ CHR ''.'' # d3 @ CHR ''.'' # d4"
    and ne: "d1 \<noteq> []" "d2 \<noteq> []" "d3 \<noteq> []" "d4 \<noteq> []"
    and dg: "\<forall>c \<in> set d1. isDigit c" "\<forall>c \<in> set d2. isDigit c" "\<forall>c \<in> set d3. isDigit c"
        "\<forall>c \<in> set d4. isDigit c"
    unfolding ipText_def by auto
  have 1: "digitsDot (M @ t) = Some (d2 @ CHR ''.'' # d3 @ CHR ''.'' # d4 @ t)"
    unfolding digitsDot_Some using ne(1) dg(1) M by auto
  have 2: "digitsDot (d2 @ CHR ''.'' # d3 @ CHR ''.'' # d4 @ t) = Some (d3 @ CHR ''.'' # d4 @ t)"
    unfolding digitsDot_Some using ne(2) dg(2) by auto
  have 3: "digitsDot (d3 @ CHR ''.'' # d4 @ t) = Some (d4 @ t)"
    unfolding digitsDot_Some using ne(3) dg(3) by auto
  have 4: "takeWhile isDigit (d4 @ t) \<noteq> []"
    using ne(4) dg(4) by (cases d4) auto
  show ?thesis by (simp add: matchIp_def 1 2 3 4)
qed

lemma matchIp_ext:
  assumes "matchIp p (w @ x) = Some k" and "k \<le> length w"
  shows "matchIp p' (w @ y) \<noteq> None"
proof -
  from matchIp_sound [OF assms(1)] assms(2) have "ipText (take k w)" by simp
  from matchIp_complete [OF this, of p' "drop k w @ y"] show ?thesis
    unfolding append_assoc [symmetric] append_take_drop_id .
qed

lemma ipText_chars: "ipText M \<Longrightarrow> M \<noteq> [] \<and> isDigit (hd M) \<and> (\<forall>c \<in> set M. isDigit c \<or> c = CHR ''.'')"
  unfolding ipText_def by (auto simp: hd_append)

lemma matchIp_first: "matchIp p s = Some n \<Longrightarrow> s \<noteq> [] \<and> isDigit (hd s)"
proof -
  assume a: "matchIp p s = Some n"
  from matchIp_sound [OF a] ipText_chars [of "take n s"]
  have "take n s \<noteq> []" "isDigit (hd (take n s))" by auto
  then show ?thesis by (cases s; cases n) auto
qed

lemma matchIp_cont:
  "matchIp p s = Some n \<Longrightarrow> n \<le> length s \<and> (\<forall>c \<in> set (tl (take n s)). isDigit c \<or> c = CHR ''.'')"
proof -
  assume a: "matchIp p s = Some n"
  from matchIp_sound [OF a] ipText_chars [of "take n s"]
  have 1: "n \<le> length s" "take n s \<noteq> []" "\<forall>c \<in> set (take n s). isDigit c \<or> c = CHR ''.''" by auto
  have "set (tl (take n s)) \<subseteq> set (take n s)" by (cases "take n s") auto
  with 1(1,3) show ?thesis by blast
qed


subsection \<open>Stages of matchers that do not read their context\<close>

lemma stage_noMatch:
  fixes mi mj :: matcher and eqv :: "char option \<Rightarrow> char option \<Rightarrow> bool"
  assumes wf: "\<And>p s n. mj p s = Some n \<Longrightarrow> 0 < n \<and> n \<le> length s"
    and rep: "rep \<noteq> []"
    and CC: "\<And>p p' v. eqv p p' \<Longrightarrow> mi p v = mi p' v"
    and B1: "\<And>p s n. mj p s = Some n \<Longrightarrow>
               eqv (Some (last (take n s))) (Some (last rep)) \<or> drop n s = []
               \<or> (\<forall>p t. mi p (hd (drop n s) # t) = None)"
    and B2: "\<And>p r1 r2 t. rep = r1 @ r2 \<Longrightarrow> r2 \<noteq> [] \<Longrightarrow> mi p (r2 @ t) = None"
    and T: "\<And>p a2 s n t. a2 \<noteq> [] \<Longrightarrow> mj (Some (last a2)) s = Some n \<Longrightarrow>
               mi p (a2 @ s) = None \<Longrightarrow> mi p (a2 @ rep @ t) = None"
    and refl: "eqv None None"
    and start: "noMatch mi None s \<or> mi = mj"
  shows "noMatch mi None (replaceAll mj rep None 0 s)"
proof -
  have "noMatch mi None ([] @ replaceAll mj rep (lastOpt None []) 0 s)"
  proof (rule stage_noMatch_general [where eqv = eqv and mj = mj and mi = mi and rep = rep
        and pin = None and pout = None and a = "[]" and s = s])
    show "\<And>p s n. mj p s = Some n \<Longrightarrow> 0 < n \<and> n \<le> length s" by (rule wf)
    show "rep \<noteq> []" by (rule rep)
    show "\<And>p p' v. eqv p p' \<Longrightarrow> mi p v = mi p' v" by (rule CC)
    show "\<And>p s n. mj p s = Some n \<Longrightarrow>
               eqv (Some (last (take n s))) (Some (last rep)) \<or> drop n s = []
               \<or> (\<forall>p t. mi p (hd (drop n s) # t) = None)" by (rule B1)
    show "\<And>p r1 r2 t. rep = r1 @ r2 \<Longrightarrow> r2 \<noteq> [] \<Longrightarrow> mi p (r2 @ t) = None" by (rule B2)
    show "\<And>p a2 s n t. a2 \<noteq> [] \<Longrightarrow> mj (Some (last a2)) s = Some n \<Longrightarrow>
               mi p (a2 @ s) = None \<Longrightarrow> mi p (a2 @ rep @ t) = None" by (rule T)
    show "\<forall>u v. s = u @ v \<and> v \<noteq> [] \<and> mj (lastOpt (lastOpt None []) u) v = None
              \<longrightarrow> mi (lastOpt (lastOpt None []) u) v = None"
      using start unfolding noMatch_def by auto
    show "\<forall>a1 a2. [] = a1 @ a2 \<and> a2 \<noteq> [] \<longrightarrow> mi (lastOpt None a1) (a2 @ s) = None" by simp
    show "eqv None None \<or> [] @ s = [] \<or> (\<forall>p t. mi p (hd ([] @ s) # t) = None)"
      using refl by simp
  qed
  then show ?thesis by simp
qed

lemma transfer_generic:
  fixes mi :: matcher
  assumes cont: "\<And>p s n. mi p s = Some n \<Longrightarrow> n \<le> length s \<and> (\<forall>c \<in> set (tl (take n s)). C c)"
    and ext: "\<And>p w x y k. mi p (w @ x) = Some k \<Longrightarrow> k \<le> length w \<Longrightarrow> mi p (w @ y) \<noteq> None"
    and rep: "rep \<noteq> []" "\<not> C (hd rep)"
    and a2: "a2 \<noteq> []"
    and none: "mi p (a2 @ s) = None"
  shows "mi p (a2 @ rep @ t) = None"
proof (rule ccontr)
  assume "mi p (a2 @ rep @ t) \<noteq> None"
  then obtain k where k: "mi p (a2 @ rep @ t) = Some k" by auto
  show False
  proof (cases "k \<le> length a2")
    case True
    from ext [OF k True, of s] none show False by simp
  next
    case False
    from cont [OF k] have c: "\<forall>c \<in> set (tl (take k (a2 @ rep @ t))). C c" by simp
    obtain x a2' where a2': "a2 = x # a2'" using a2 by (cases a2) auto
    obtain r rep' where rep': "rep = r # rep'" using rep(1) by (cases rep) auto
    obtain j where j: "k = length a2 + Suc j" using False
      by (metis add_Suc_right less_imp_Suc_add not_le_imp_less)
    have "take k (a2 @ rep @ t) = a2 @ r # take j (rep' @ t)"
      unfolding j rep' by simp
    then have "r \<in> set (tl (take k (a2 @ rep @ t)))" by (simp add: a2')
    with c rep(2) rep' show False by auto
  qed
qed

lemma stage_cf:
  fixes mi mj :: matcher
  assumes wf: "\<And>p s n. mj p s = Some n \<Longrightarrow> 0 < n \<and> n \<le> length s"
    and cf: "\<And>p p' v. mi p v = mi p' v"
    and first: "\<And>p s n. mi p s = Some n \<Longrightarrow> s \<noteq> [] \<and> F (hd s)"
    and cont: "\<And>p s n. mi p s = Some n \<Longrightarrow> n \<le> length s \<and> (\<forall>c \<in> set (tl (take n s)). C c)"
    and ext: "\<And>p w x y k. mi p (w @ x) = Some k \<Longrightarrow> k \<le> length w \<Longrightarrow> mi p (w @ y) \<noteq> None"
    and rep: "rep \<noteq> []" "\<not> C (hd rep)" "\<forall>c \<in> set (tl rep). \<not> F c"
    and whole: "\<And>p t. mi p (rep @ t) = None"
    and start: "noMatch mi None s \<or> mi = mj"
  shows "noMatch mi None (replaceAll mj rep None 0 s)"
proof (rule stage_noMatch [where eqv = "\<lambda>_ _. True"])
  show "\<And>p s n. mj p s = Some n \<Longrightarrow> 0 < n \<and> n \<le> length s" by (rule wf)
  show "rep \<noteq> []" by (rule rep)
  show "\<And>p p' v. True \<Longrightarrow> mi p v = mi p' v" by (rule cf)
  show "\<And>p s n. mj p s = Some n \<Longrightarrow> True \<or> drop n s = []
               \<or> (\<forall>p t. mi p (hd (drop n s) # t) = None)" by simp
  show "mi p (r2 @ t) = None" if h: "rep = r1 @ r2" "r2 \<noteq> []" for p r1 r2 t
  proof (cases r1)
    case Nil
    with h whole show ?thesis by simp
  next
    case (Cons x r1')
    with h have "hd r2 \<in> set (tl rep)" by (cases r2) auto
    with rep(3) have nf: "\<not> F (hd r2)" by blast
    show ?thesis
    proof (rule ccontr)
      assume "mi p (r2 @ t) \<noteq> None"
      then obtain n where "mi p (r2 @ t) = Some n" by auto
      from first [OF this] h(2) nf show False by simp
    qed
  qed
  show "mi p (a2 @ rep @ t) = None"
    if "a2 \<noteq> []" "mj (Some (last a2)) s = Some n" "mi p (a2 @ s) = None" for p a2 s n t
    using transfer_generic [where mi = mi and C = C, OF cont ext rep(1,2) that(1,3)] .
  show True by simp
  show "noMatch mi None s \<or> mi = mj" by (rule start)
qed

lemma no_first:
  fixes mi :: matcher
  assumes first: "\<And>p s n. mi p s = Some n \<Longrightarrow> s \<noteq> [] \<and> F (hd s)"
    and "rep \<noteq> []" "\<not> F (hd rep)"
  shows "mi p (rep @ t) = None"
proof (rule ccontr)
  assume "mi p (rep @ t) \<noteq> None"
  then obtain n where "mi p (rep @ t) = Some n" by auto
  from first [OF this] assms(2,3) show False by simp
qed

subsection \<open>Ports\<close>

lemma matchPort_cf: "matchPort p v = matchPort p' v"
  by (simp add: matchPort_def)

lemma matchPort_Some:
  "matchPort p s = Some n \<longleftrightarrow>
     (\<exists>r. s = CHR '':'' # r \<and> takeWhile isDigit r \<noteq> [] \<and> n = Suc (length (takeWhile isDigit r)))"
  by (auto simp: matchPort_def split: list.splits)

lemma matchPort_wf: "matchPort p s = Some n \<Longrightarrow> 0 < n \<and> n \<le> length s"
  unfolding matchPort_Some by (auto simp: length_takeWhile_le)

lemma matchPort_first: "matchPort p s = Some n \<Longrightarrow> s \<noteq> [] \<and> hd s = CHR '':''"
  unfolding matchPort_Some by auto

lemma take_length_takeWhile: "take (length (takeWhile P xs)) xs = takeWhile P xs"
  by (induction xs) auto

lemma matchPort_cont:
  "matchPort p s = Some n \<Longrightarrow> n \<le> length s \<and> (\<forall>c \<in> set (tl (take n s)). isDigit c)"
  unfolding matchPort_Some
  by (auto simp: length_takeWhile_le take_length_takeWhile dest: set_takeWhileD)

lemma matchPort_ext:
  assumes "matchPort p (w @ x) = Some k" and "k \<le> length w"
  shows "matchPort p (w @ y) \<noteq> None"
proof -
  from assms(1) obtain r where r: "w @ x = CHR '':'' # r" "takeWhile isDigit r \<noteq> []"
      "k = Suc (length (takeWhile isDigit r))"
    unfolding matchPort_Some by blast
  from r(3) assms(2) obtain w' where w: "w = CHR '':'' # w'" using r(1) by (cases w) auto
  with r(1) have r': "r = w' @ x" by simp
  have "w' \<noteq> []" using r(2,3) assms(2) w by (cases "takeWhile isDigit r") auto
  then obtain c w'' where w': "w' = c # w''" by (cases w') auto
  with r(2) r' have "isDigit c" by (auto split: if_splits)
  then show ?thesis by (simp add: matchPort_def w w')
qed

subsection \<open>UUIDs\<close>

lemma matchUuid_cf: "matchUuid p v = matchUuid p' v"
  by (simp add: matchUuid_def)

lemma matchUuid_Some:
  "matchUuid p s = Some n \<longleftrightarrow>
     (\<exists>r. s = CHR ''/'' # r \<and> 36 \<le> length r \<and> list_all isHexDash (take 36 r) \<and> n = 37)"
  by (auto simp: matchUuid_def split: list.splits)

lemma matchUuid_wf: "matchUuid p s = Some n \<Longrightarrow> 0 < n \<and> n \<le> length s"
  unfolding matchUuid_Some by auto

lemma matchUuid_first: "matchUuid p s = Some n \<Longrightarrow> s \<noteq> [] \<and> hd s = CHR ''/''"
  unfolding matchUuid_Some by auto

lemma matchUuid_cont:
  "matchUuid p s = Some n \<Longrightarrow> n \<le> length s \<and> (\<forall>c \<in> set (tl (take n s)). isHexDash c)"
  unfolding matchUuid_Some by (auto simp: list_all_iff)

lemma matchUuid_ext:
  assumes "matchUuid p (w @ x) = Some k" and "k \<le> length w"
  shows "matchUuid p (w @ y) \<noteq> None"
proof -
  from assms(1) obtain r where r: "w @ x = CHR ''/'' # r" "36 \<le> length r"
      "list_all isHexDash (take 36 r)" "k = 37"
    unfolding matchUuid_Some by blast
  from r(4) assms(2) obtain w' where w: "w = CHR ''/'' # w'" using r(1) by (cases w) auto
  with r(1) have r': "r = w' @ x" by simp
  have len: "36 \<le> length w'" using r(4) assms(2) w by simp
  then have "take 36 (w' @ y) = take 36 (w' @ x)" by simp
  with r(3) r' len show ?thesis by (simp add: matchUuid_def w)
qed


subsection \<open>Numbers\<close>

lemma matchNumber_Some:
  "matchNumber p s = Some n \<longleftrightarrow>
     n = length (takeWhile isDigit s) \<and> 0 < n \<and> \<not> wordBefore p
     \<and> (drop n s = [] \<or> \<not> isWordChar (hd (drop n s)))"
  by (auto simp: matchNumber_def Let_def wordBefore_def split: option.splits list.splits)

lemma matchNumber_None:
  "matchNumber p s = None \<longleftrightarrow>
     \<not> (0 < length (takeWhile isDigit s) \<and> \<not> wordBefore p
        \<and> (drop (length (takeWhile isDigit s)) s = []
             \<or> \<not> isWordChar (hd (drop (length (takeWhile isDigit s)) s))))"
  by (auto simp: matchNumber_def Let_def wordBefore_def split: option.splits list.splits)

lemma matchNumber_alt:
  "matchNumber p s =
     (if 0 < length (takeWhile isDigit s) \<and> \<not> wordBefore p
         \<and> (drop (length (takeWhile isDigit s)) s = []
              \<or> \<not> isWordChar (hd (drop (length (takeWhile isDigit s)) s)))
      then Some (length (takeWhile isDigit s)) else None)"
  by (auto simp: matchNumber_def Let_def wordBefore_def split: option.splits list.splits)

lemma matchNumber_wf: "matchNumber p s = Some n \<Longrightarrow> 0 < n \<and> n \<le> length s"
  by (auto simp: matchNumber_Some length_takeWhile_le)

lemma matchNumber_class: "sameClass p p' \<Longrightarrow> matchNumber p v = matchNumber p' v"
  by (simp add: matchNumber_alt sameClass_def)

lemma matchNumber_dead: "\<not> isDigit c \<Longrightarrow> matchNumber p (c # t) = None"
  by (simp add: matchNumber_None)

lemma matchNumber_first: "matchNumber p s = Some n \<Longrightarrow> s \<noteq> [] \<and> isDigit (hd s)"
  by (cases s) (auto simp: matchNumber_Some split: if_splits)

lemma matchNumber_indep:
  assumes "\<exists>c \<in> set a. \<not> isDigit c"
  shows "matchNumber p (a @ x) = matchNumber p (a @ y)"
proof -
  from assms obtain c where c: "c \<in> set a" "\<not> isDigit c" by blast
  have tw: "takeWhile isDigit (a @ z) = takeWhile isDigit a" for z
    using c by (rule takeWhile_append1)
  define n where "n = length (takeWhile isDigit a)"
  have "n < length a"
    unfolding n_def using c length_takeWhile_le [of isDigit a] takeWhile_eq_all_conv [of isDigit a]
    by (metis le_neq_implies_less length_takeWhile_le take_all_iff take_length_takeWhile order_refl)
  then obtain d r where dr: "drop n a = d # r" by (cases "drop n a") auto
  have dz: "drop n (a @ z) = d # r @ z" for z
    using \<open>n < length a\<close> dr by simp
  show ?thesis
    by (simp add: matchNumber_alt tw n_def [symmetric] dz del: drop_append)
qed

subsection \<open>White space runs\<close>

lemma matchSpace_Some:
  "matchSpace p s = Some n \<longleftrightarrow> n = length (takeWhile isSpace s) \<and> 0 < n"
  by (auto simp: matchSpace_def Let_def)

lemma matchSpace_wf: "matchSpace p s = Some n \<Longrightarrow> 0 < n \<and> n \<le> length s"
  by (auto simp: matchSpace_Some length_takeWhile_le)

lemma matchSpace_first: "matchSpace p s = Some n \<Longrightarrow> s \<noteq> [] \<and> isSpace (hd s)"
  by (cases s) (auto simp: matchSpace_Some split: if_splits)

lemma matchSpace_last: "matchSpace p s = Some n \<Longrightarrow> isSpace (last (take n s))"
proof -
  assume a: "matchSpace p s = Some n"
  then have n: "n = length (takeWhile isSpace s)" "0 < n" by (auto simp: matchSpace_Some)
  then have "take n s = takeWhile isSpace s" by (simp add: take_length_takeWhile)
  moreover have "takeWhile isSpace s \<noteq> []" using n by auto
  then have "last (takeWhile isSpace s) \<in> set (takeWhile isSpace s)" by (rule last_in_set)
  ultimately show ?thesis by (auto dest: set_takeWhileD)
qed


subsection \<open>Each stage keeps the text free of the matches of the stages before it\<close>

lemma hexDash_reps:
  "\<not> isHexDash CHR ''/''" "\<not> isHexDash CHR ''<''" "\<not> isHexDash CHR '' ''"
  by (simp_all add: isHexDash_def digitChars_def)

lemma digit_reps:
  "\<not> isDigit CHR ''<''" "\<not> isDigit CHR '':''" "\<not> isDigit CHR ''/''" "\<not> isDigit CHR '' ''"
  "\<forall>c \<in> set ''<ip>''. \<not> isDigit c" "\<forall>c \<in> set '':<port>''. \<not> isDigit c"
  "\<forall>c \<in> set ''/<uuid>''. \<not> isDigit c" "\<forall>c \<in> set ''<n>''. \<not> isDigit c"
  by (simp_all add: isDigit_def digitChars_def)

lemma stage_ip:
  assumes wf: "\<And>p s n. mj p s = Some n \<Longrightarrow> 0 < n \<and> n \<le> length s"
    and rep: "rep \<noteq> []" "\<forall>c \<in> set rep. \<not> isDigit c" "hd rep \<noteq> CHR ''.''"
    and start: "noMatch matchIp None s \<or> matchIp = mj"
  shows "noMatch matchIp None (replaceAll mj rep None 0 s)"
proof (rule stage_cf [where F = isDigit and C = "\<lambda>c. isDigit c \<or> c = CHR ''.''"])
  show "\<And>p s n. mj p s = Some n \<Longrightarrow> 0 < n \<and> n \<le> length s" by (rule wf)
  show "\<And>p p' v. matchIp p v = matchIp p' v" by (simp add: matchIp_def)
  show "\<And>p s n. matchIp p s = Some n \<Longrightarrow> s \<noteq> [] \<and> isDigit (hd s)" by (rule matchIp_first)
  show "\<And>p s n. matchIp p s = Some n \<Longrightarrow>
          n \<le> length s \<and> (\<forall>c \<in> set (tl (take n s)). isDigit c \<or> c = CHR ''.'')"
    by (rule matchIp_cont)
  show "\<And>p w x y k. matchIp p (w @ x) = Some k \<Longrightarrow> k \<le> length w \<Longrightarrow> matchIp p (w @ y) \<noteq> None"
    by (rule matchIp_ext)
  show "rep \<noteq> []" by (rule rep)
  have hd: "hd rep \<in> set rep" using rep(1) by simp
  with rep(2) have nd: "\<not> isDigit (hd rep)" by blast
  with rep(3) show "\<not> (isDigit (hd rep) \<or> hd rep = CHR ''.'')" by simp
  show "\<forall>c \<in> set (tl rep). \<not> isDigit c" using rep(1,2) by (auto dest: list.set_sel(2))
  show "\<And>p t. matchIp p (rep @ t) = None"
    using no_first [where F = isDigit and mi = matchIp, OF matchIp_first rep(1) nd] .
  show "noMatch matchIp None s \<or> matchIp = mj" by (rule start)
qed

lemma stage_port:
  assumes wf: "\<And>p s n. mj p s = Some n \<Longrightarrow> 0 < n \<and> n \<le> length s"
    and rep: "rep \<noteq> []" "\<not> isDigit (hd rep)" "\<forall>c \<in> set (tl rep). c \<noteq> CHR '':''"
    and whole: "\<And>p t. matchPort p (rep @ t) = None"
    and start: "noMatch matchPort None s \<or> matchPort = mj"
  shows "noMatch matchPort None (replaceAll mj rep None 0 s)"
proof (rule stage_cf [where F = "\<lambda>c. c = CHR '':''" and C = isDigit])
  show "\<And>p s n. mj p s = Some n \<Longrightarrow> 0 < n \<and> n \<le> length s" by (rule wf)
  show "\<And>p p' v. matchPort p v = matchPort p' v" by (rule matchPort_cf)
  show "\<And>p s n. matchPort p s = Some n \<Longrightarrow> s \<noteq> [] \<and> hd s = CHR '':''" by (rule matchPort_first)
  show "\<And>p s n. matchPort p s = Some n \<Longrightarrow> n \<le> length s \<and> (\<forall>c \<in> set (tl (take n s)). isDigit c)"
    by (rule matchPort_cont)
  show "\<And>p w x y k. matchPort p (w @ x) = Some k \<Longrightarrow> k \<le> length w \<Longrightarrow> matchPort p (w @ y) \<noteq> None"
    by (rule matchPort_ext)
  show "rep \<noteq> []" by (rule rep)
  show "\<not> isDigit (hd rep)" by (rule rep)
  show "\<forall>c \<in> set (tl rep). \<not> c = CHR '':''" using rep(3) by simp
  show "\<And>p t. matchPort p (rep @ t) = None" by (rule whole)
  show "noMatch matchPort None s \<or> matchPort = mj" by (rule start)
qed

lemma stage_uuid:
  assumes wf: "\<And>p s n. mj p s = Some n \<Longrightarrow> 0 < n \<and> n \<le> length s"
    and rep: "rep \<noteq> []" "\<not> isHexDash (hd rep)" "\<forall>c \<in> set (tl rep). c \<noteq> CHR ''/''"
    and whole: "\<And>p t. matchUuid p (rep @ t) = None"
    and start: "noMatch matchUuid None s \<or> matchUuid = mj"
  shows "noMatch matchUuid None (replaceAll mj rep None 0 s)"
proof (rule stage_cf [where F = "\<lambda>c. c = CHR ''/''" and C = isHexDash])
  show "\<And>p s n. mj p s = Some n \<Longrightarrow> 0 < n \<and> n \<le> length s" by (rule wf)
  show "\<And>p p' v. matchUuid p v = matchUuid p' v" by (rule matchUuid_cf)
  show "\<And>p s n. matchUuid p s = Some n \<Longrightarrow> s \<noteq> [] \<and> hd s = CHR ''/''" by (rule matchUuid_first)
  show "\<And>p s n. matchUuid p s = Some n \<Longrightarrow> n \<le> length s \<and> (\<forall>c \<in> set (tl (take n s)). isHexDash c)"
    by (rule matchUuid_cont)
  show "\<And>p w x y k. matchUuid p (w @ x) = Some k \<Longrightarrow> k \<le> length w \<Longrightarrow> matchUuid p (w @ y) \<noteq> None"
    by (rule matchUuid_ext)
  show "rep \<noteq> []" by (rule rep)
  show "\<not> isHexDash (hd rep)" by (rule rep)
  show "\<forall>c \<in> set (tl rep). \<not> c = CHR ''/''" using rep(3) by simp
  show "\<And>p t. matchUuid p (rep @ t) = None" by (rule whole)
  show "noMatch matchUuid None s \<or> matchUuid = mj" by (rule start)
qed

lemma matchNumber_after_digits:
  assumes "\<forall>c \<in> set a. isDigit c" and "a \<noteq> []" and "t = [] \<or> \<not> isWordChar (hd t)"
  shows "matchNumber p (a @ t) = (if wordBefore p then None else Some (length a))"
proof -
  have nd: "t = [] \<or> \<not> isDigit (hd t)" using assms(3) isDigit_isWordChar by blast
  have tw: "takeWhile isDigit (a @ t) = a" using takeWhile_all [OF assms(1) nd] .
  show ?thesis using assms(2,3) by (simp add: matchNumber_alt tw)
qed

lemma stage_number:
  assumes wf: "\<And>p s n. mj p s = Some n \<Longrightarrow> 0 < n \<and> n \<le> length s"
    and rep: "rep \<noteq> []" "\<forall>c \<in> set rep. \<not> isDigit c"
    and B1: "\<And>p s n. mj p s = Some n \<Longrightarrow>
               (\<not> isWordChar (last (take n s)) \<and> \<not> isWordChar (last rep))
               \<or> drop n s = [] \<or> \<not> isDigit (hd (drop n s))"
    and T: "\<And>p a2 s n t. a2 \<noteq> [] \<Longrightarrow> mj (Some (last a2)) s = Some n \<Longrightarrow>
               matchNumber p (a2 @ s) = None \<Longrightarrow> matchNumber p (a2 @ rep @ t) = None"
    and start: "noMatch matchNumber None s \<or> matchNumber = mj"
  shows "noMatch matchNumber None (replaceAll mj rep None 0 s)"
proof (rule stage_noMatch [where eqv = sameClass])
  show "\<And>p s n. mj p s = Some n \<Longrightarrow> 0 < n \<and> n \<le> length s" by (rule wf)
  show "rep \<noteq> []" by (rule rep)
  show "\<And>p p' v. sameClass p p' \<Longrightarrow> matchNumber p v = matchNumber p' v" by (rule matchNumber_class)
  show "sameClass (Some (last (take n s))) (Some (last rep)) \<or> drop n s = []
          \<or> (\<forall>p t. matchNumber p (hd (drop n s) # t) = None)" if "mj p s = Some n" for p s n
    using B1 [OF that] by (auto simp: sameClass_def wordBefore_def matchNumber_dead)
  show "matchNumber p (r2 @ t) = None" if h: "rep = r1 @ r2" "r2 \<noteq> []" for p r1 r2 t
  proof -
    from h have "hd r2 \<in> set rep" by simp
    with rep(2) have "\<not> isDigit (hd r2)" by blast
    with h(2) show ?thesis by (cases r2) (simp_all add: matchNumber_dead)
  qed
  show "\<And>p a2 s n t. a2 \<noteq> [] \<Longrightarrow> mj (Some (last a2)) s = Some n \<Longrightarrow>
               matchNumber p (a2 @ s) = None \<Longrightarrow> matchNumber p (a2 @ rep @ t) = None" by (rule T)
  show "sameClass None None" by (simp add: sameClass_def)
  show "noMatch matchNumber None s \<or> matchNumber = mj" by (rule start)
qed

lemma number_number:
  shows "noMatch matchNumber None (replaceAll matchNumber ''<n>'' None 0 s)"
proof (rule stage_number)
  show "\<And>p s n. matchNumber p s = Some n \<Longrightarrow> 0 < n \<and> n \<le> length s" by (rule matchNumber_wf)
  show "''<n>'' \<noteq> []" by simp
  show "\<forall>c \<in> set ''<n>''. \<not> isDigit c" by (rule digit_reps)
  show "(\<not> isWordChar (last (take n s)) \<and> \<not> isWordChar (last ''<n>''))
               \<or> drop n s = [] \<or> \<not> isDigit (hd (drop n s))" if "matchNumber p s = Some n" for p s n
    using that isDigit_isWordChar by (auto simp: matchNumber_Some)
  show "matchNumber p (a2 @ ''<n>'' @ t) = None"
    if h: "a2 \<noteq> []" "matchNumber (Some (last a2)) s = Some n" "matchNumber p (a2 @ s) = None"
    for p a2 s n t
  proof -
    from h(2) have "\<not> isWordChar (last a2)" by (simp add: matchNumber_Some wordBefore_def)
    then have "\<not> isDigit (last a2)" using isDigit_isWordChar by blast
    moreover have "last a2 \<in> set a2" using h(1) by simp
    ultimately have "\<exists>c \<in> set a2. \<not> isDigit c" by blast
    from matchNumber_indep [OF this, of p s "''<n>'' @ t"] h(3) show ?thesis by simp
  qed
  show "noMatch matchNumber None s \<or> matchNumber = matchNumber" by simp
qed

lemma number_space:
  assumes "noMatch matchNumber None s"
  shows "noMatch matchNumber None (replaceAll matchSpace '' '' None 0 s)"
proof (rule stage_number)
  show "\<And>p s n. matchSpace p s = Some n \<Longrightarrow> 0 < n \<and> n \<le> length s" by (rule matchSpace_wf)
  show "'' '' \<noteq> []" by simp
  show "\<forall>c \<in> set '' ''. \<not> isDigit c" by (simp add: digit_reps)
  show "(\<not> isWordChar (last (take n s)) \<and> \<not> isWordChar (last '' ''))
               \<or> drop n s = [] \<or> \<not> isDigit (hd (drop n s))" if "matchSpace p s = Some n" for p s n
    using matchSpace_last [OF that] isSpace_not_word [of "last (take n s)"]
      isSpace_not_word [of "CHR '' ''"]
    by (simp add: isSpace_def spaceChars_def)
  show "matchNumber p (a2 @ '' '' @ t) = None"
    if h: "a2 \<noteq> []" "matchSpace (Some (last a2)) s = Some n" "matchNumber p (a2 @ s) = None"
    for p a2 s n t
  proof (cases "\<exists>c \<in> set a2. \<not> isDigit c")
    case True
    from matchNumber_indep [OF this, of p s "'' '' @ t"] h(3) show ?thesis by simp
  next
    case False
    then have dg: "\<forall>c \<in> set a2. isDigit c" by blast
    from matchSpace_first [OF h(2)] isSpace_not_word have "s = [] \<or> \<not> isWordChar (hd s)" by blast
    from matchNumber_after_digits [OF dg h(1) this, of p] h(3) have wb: "wordBefore p"
      by (simp split: if_splits)
    then show ?thesis by (simp add: matchNumber_alt)
  qed
  show "noMatch matchNumber None s \<or> matchNumber = matchSpace" using assms by simp
qed


subsection \<open>Single spaces\<close>

lemma spacesOk_tl: "spacesOk (c # s) \<Longrightarrow> spacesOk s"
  by (cases s) auto

lemma spacesOk_suffix: "spacesOk (l @ s) \<Longrightarrow> spacesOk s"
  by (induction l) (auto dest: spacesOk_tl)

lemma spacesOk_prefix: "spacesOk (s @ r) \<Longrightarrow> spacesOk s"
proof (induction s rule: spacesOk.induct)
  case 1
  then show ?case by simp
next
  case (2 c)
  then show ?case by (cases r) auto
next
  case (3 c d r')
  then show ?case by simp
qed

lemma spacesOk_Cons:
  "spacesOk (c # s) \<longleftrightarrow> (isSpace c \<longrightarrow> c = CHR '' '' \<and> (s = [] \<or> \<not> isSpace (hd s))) \<and> spacesOk s"
  by (cases s) auto

lemma space_is_space: "isSpace CHR '' ''"
  by (simp add: isSpace_def spaceChars_def)

lemma spacesOk_fixpoint: "spacesOk s \<Longrightarrow> replaceAll matchSpace '' '' p 0 s = s"
proof (induction s arbitrary: p)
  case Nil
  then show ?case by simp
next
  case (Cons c s)
  from Cons.prems have ok: "spacesOk s" by (rule spacesOk_tl)
  show ?case
  proof (cases "isSpace c")
    case False
    then have "matchSpace p (c # s) = None" by (simp add: matchSpace_def)
    with Cons.IH [OF ok] show ?thesis by simp
  next
    case True
    with Cons.prems have c: "c = CHR '' ''" and nx: "s = [] \<or> \<not> isSpace (hd s)"
      by (simp_all add: spacesOk_Cons)
    from nx True have "takeWhile isSpace (c # s) = [c]" by (cases s) auto
    then have "matchSpace p (c # s) = Some (Suc 0)" by (simp add: matchSpace_def)
    with Cons.IH [OF ok] c show ?thesis by simp
  qed
qed

lemma replaceAll_hd:
  assumes "s \<noteq> []" and "m p s = None"
  shows "replaceAll m rep p 0 s \<noteq> [] \<and> hd (replaceAll m rep p 0 s) = hd s"
  using assms by (cases s) auto

lemma spacesOk_replaceAll: "spacesOk (replaceAll matchSpace '' '' p 0 s)"
proof (induction "length s" arbitrary: s p rule: less_induct)
  case less
  show ?case
  proof (cases s)
    case Nil
    then show ?thesis by simp
  next
    case (Cons c cs)
    show ?thesis
    proof (cases "matchSpace p s")
      case None
      then have "\<not> isSpace c" using Cons by (auto simp: matchSpace_def Let_def split: if_splits)
      moreover have "spacesOk (replaceAll matchSpace '' '' (Some c) 0 cs)"
        using less [of cs "Some c"] Cons by simp
      ultimately show ?thesis using None Cons by (simp add: spacesOk_Cons)
    next
      case (Some n)
      from matchSpace_wf [OF Some] have n: "0 < n" "n \<le> length s" by simp_all
      define s' where "s' = drop n s"
      define q where "q = lastOpt p (take n s)"
      have ne: "s \<noteq> []" using Cons by simp
      have out: "replaceAll matchSpace '' '' p 0 s = '' '' @ replaceAll matchSpace '' '' q 0 s'"
        unfolding s'_def q_def
        by (rule replaceAll_match [where m = matchSpace and prev = p and s = s and n = n, OF Some n(1) ne])
      have "length s' < length s" using n Cons by (simp add: s'_def)
      from less [OF this, of q] have ok: "spacesOk (replaceAll matchSpace '' '' q 0 s')" .
      have nsp: "s' = [] \<or> \<not> isSpace (hd s')"
      proof -
        from Some have "n = length (takeWhile isSpace s)" by (simp add: matchSpace_Some)
        then have "s' = dropWhile isSpace s"
          unfolding s'_def by (metis append_eq_conv_conj takeWhile_dropWhile_id)
        then show ?thesis using hd_dropWhile [of isSpace s] by auto
      qed
      have "replaceAll matchSpace '' '' q 0 s' = []
            \<or> \<not> isSpace (hd (replaceAll matchSpace '' '' q 0 s'))"
      proof (cases "s' = []")
        case True
        then show ?thesis by simp
      next
        case False
        with nsp have "\<not> isSpace (hd s')" by simp
        then have "matchSpace q s' = None" using False by (cases s') (auto simp: matchSpace_def)
        from replaceAll_hd [where m = matchSpace and p = q and s = s' and rep = "'' ''", OF False this]
          \<open>\<not> isSpace (hd s')\<close> show ?thesis by simp
      qed
      with ok show ?thesis unfolding out by (simp add: spacesOk_Cons)
    qed
  qed
qed

subsection \<open>Trimming\<close>

lemma trim_decomp:
  obtains l r where "s = l @ trim s @ r" "\<forall>c \<in> set l. isSpace c" "r = [] \<or> isSpace (hd r)"
proof -
  define l where "l = takeWhile isSpace s"
  define a where "a = dropWhile isSpace s"
  define r where "r = rev (takeWhile isSpace (rev a))"
  have "rev a = takeWhile isSpace (rev a) @ dropWhile isSpace (rev a)" by simp
  then have "rev (rev a) = rev (takeWhile isSpace (rev a) @ dropWhile isSpace (rev a))" by simp
  then have a: "a = trim s @ r" unfolding rev_append by (simp add: trim_def r_def a_def)
  have "s = l @ a" by (simp add: l_def a_def)
  with a have 1: "s = l @ trim s @ r" by simp
  have 2: "\<forall>c \<in> set l. isSpace c" by (auto simp: l_def dest: set_takeWhileD)
  have "\<forall>c \<in> set r. isSpace c" by (auto simp: r_def dest: set_takeWhileD)
  then have 3: "r = [] \<or> isSpace (hd r)" by (cases r) auto
  from 1 2 3 show ?thesis by (rule that)
qed

lemma dropWhile_same: "xs = [] \<or> \<not> P (hd xs) \<Longrightarrow> dropWhile P xs = xs"
  by (cases xs) auto

lemma trim_idem: "trim (trim s) = trim s"
proof -
  define a where "a = dropWhile isSpace s"
  define b where "b = dropWhile isSpace (rev a)"
  have t: "trim s = rev b" by (simp add: trim_def a_def b_def)
  have ha: "a = [] \<or> \<not> isSpace (hd a)" using hd_dropWhile [of isSpace s] by (auto simp: a_def)
  have hb: "b = [] \<or> \<not> isSpace (hd b)" using hd_dropWhile [of isSpace "rev a"] by (auto simp: b_def)
  have "rev b = [] \<or> \<not> isSpace (hd (rev b))"
  proof (cases "b = []")
    case True
    then show ?thesis by simp
  next
    case False
    obtain k where "rev a = k @ b" unfolding b_def by (metis takeWhile_dropWhile_id)
    then have "a = rev b @ rev k" by (metis rev_append rev_rev_ident)
    with False have "hd a = hd (rev b)" "a \<noteq> []" by simp_all
    with ha show ?thesis by simp
  qed
  then have 1: "dropWhile isSpace (rev b) = rev b" by (rule dropWhile_same)
  have 2: "dropWhile isSpace b = b" using hb by (rule dropWhile_same)
  show ?thesis unfolding t by (simp add: trim_def 1 2)
qed

lemma noMatch_suffix: "noMatch m prev (l @ s) \<Longrightarrow> noMatch m (lastOpt prev l) s"
  by (simp add: noMatch_append)

lemma noMatch_prefix:
  fixes m :: matcher
  assumes ext: "\<And>p v k. m p v = Some k \<Longrightarrow> m p (v @ r) \<noteq> None"
    and nm: "noMatch m prev (s @ r)"
  shows "noMatch m prev s"
  unfolding noMatch_def
proof (intro allI impI)
  fix u v assume uv: "s = u @ v \<and> v \<noteq> []"
  from nm uv have "noMatch m prev (u @ (v @ r))" by simp
  then have "noMatch m (lastOpt prev u) (v @ r)" by (rule noMatch_suffix)
  with uv have none: "m (lastOpt prev u) (v @ r) = None" by (cases v) (simp_all add: noMatch_Cons)
  show "m (lastOpt prev u) v = None"
  proof (rule ccontr)
    assume "m (lastOpt prev u) v \<noteq> None"
    then obtain k where "m (lastOpt prev u) v = Some k" by auto
    from ext [OF this] none show False by simp
  qed
qed

lemma noMatch_context:
  fixes m :: matcher
  assumes "\<And>v. m p v = m p' v" and "noMatch m p s"
  shows "noMatch m p' s"
  using assms by (cases s) (simp_all add: noMatch_Cons)

lemma noMatch_trim:
  fixes m :: matcher
  assumes ext: "\<And>p v k r. m p v = Some k \<Longrightarrow> r = [] \<or> isSpace (hd r) \<Longrightarrow> m p (v @ r) \<noteq> None"
    and ctx: "\<And>c v. isSpace c \<Longrightarrow> m (Some c) v = m None v"
    and nm: "noMatch m None s"
  shows "noMatch m None (trim s)"
proof -
  obtain l r where d: "s = l @ trim s @ r" "\<forall>c \<in> set l. isSpace c" "r = [] \<or> isSpace (hd r)"
    by (rule trim_decomp)
  from nm d(1) have "noMatch m None (l @ trim s @ r)" by simp
  then have 1: "noMatch m (lastOpt None l) (trim s @ r)" by (rule noMatch_suffix)
  have "noMatch m (lastOpt None l) (trim s)"
  proof (rule noMatch_prefix [where r = r])
    show "\<And>p v k. m p v = Some k \<Longrightarrow> m p (v @ r) \<noteq> None" using ext d(3) by blast
    show "noMatch m (lastOpt None l) (trim s @ r)" by (rule 1)
  qed
  moreover have "m (lastOpt None l) v = m None v" for v
  proof (cases "l = []")
    case True
    then show ?thesis by simp
  next
    case False
    then have "isSpace (last l)" using d(2) by simp
    from ctx [OF this] False show ?thesis by (simp add: lastOpt_def)
  qed
  ultimately show ?thesis by (rule noMatch_context [rotated])
qed

lemma matchIp_trim: "noMatch matchIp None s \<Longrightarrow> noMatch matchIp None (trim s)"
proof (rule noMatch_trim)
  show "matchIp p (v @ r) \<noteq> None" if "matchIp p v = Some k" for p v k r
  proof -
    from that have "matchIp p (v @ []) = Some k" by simp
    moreover from matchIp_sound [OF that] have "k \<le> length v" by simp
    ultimately show ?thesis by (rule matchIp_ext)
  qed
  show "\<And>c v. matchIp (Some c) v = matchIp None v" by (simp add: matchIp_def)
qed

lemma matchPort_trim: "noMatch matchPort None s \<Longrightarrow> noMatch matchPort None (trim s)"
proof (rule noMatch_trim)
  show "matchPort p (v @ r) \<noteq> None" if "matchPort p v = Some k" for p v k r
  proof -
    from that have "matchPort p (v @ []) = Some k" by simp
    moreover from matchPort_wf [OF that] have "k \<le> length v" by simp
    ultimately show ?thesis by (rule matchPort_ext)
  qed
  show "\<And>c v. matchPort (Some c) v = matchPort None v" by (rule matchPort_cf)
qed

lemma matchUuid_trim: "noMatch matchUuid None s \<Longrightarrow> noMatch matchUuid None (trim s)"
proof (rule noMatch_trim)
  show "matchUuid p (v @ r) \<noteq> None" if "matchUuid p v = Some k" for p v k r
  proof -
    from that have "matchUuid p (v @ []) = Some k" by simp
    moreover from matchUuid_wf [OF that] have "k \<le> length v" by simp
    ultimately show ?thesis by (rule matchUuid_ext)
  qed
  show "\<And>c v. matchUuid (Some c) v = matchUuid None v" by (rule matchUuid_cf)
qed

lemma matchNumber_trim: "noMatch matchNumber None s \<Longrightarrow> noMatch matchNumber None (trim s)"
proof (rule noMatch_trim)
  show "matchNumber p (v @ r) \<noteq> None"
    if h: "matchNumber p v = Some k" "r = [] \<or> isSpace (hd r)" for p v k r
  proof (cases "\<exists>c \<in> set v. \<not> isDigit c")
    case True
    from matchNumber_indep [OF this, of p r "[]"] have "matchNumber p (v @ r) = matchNumber p v"
      by simp
    with h(1) show ?thesis by simp
  next
    case False
    then have dg: "\<forall>c \<in> set v. isDigit c" by blast
    from matchNumber_wf [OF h(1)] have ne: "v \<noteq> []" by auto
    from h(2) isSpace_not_word have "r = [] \<or> \<not> isWordChar (hd r)" by blast
    from matchNumber_after_digits [OF dg ne this, of p]
    have eq: "matchNumber p (v @ r) = (if wordBefore p then None else Some (length v))" .
    from h(1) have "\<not> wordBefore p" by (simp add: matchNumber_Some)
    with eq show ?thesis by simp
  qed
  show "matchNumber (Some c) v = matchNumber None v" if "isSpace c" for c v
    using isSpace_not_word [OF that] by (simp add: matchNumber_alt wordBefore_def)
qed

lemma spacesOk_trim: "spacesOk s \<Longrightarrow> spacesOk (trim s)"
proof -
  assume a: "spacesOk s"
  obtain l r where d: "s = l @ trim s @ r" "\<forall>c \<in> set l. isSpace c" "r = [] \<or> isSpace (hd r)"
    by (rule trim_decomp)
  from a d(1) have "spacesOk (l @ trim s @ r)" by simp
  then have "spacesOk (trim s @ r)" by (rule spacesOk_suffix)
  then show ?thesis by (rule spacesOk_prefix)
qed

subsection \<open>Lower case\<close>

lemma lower_not_upper: "c \<in> set lowerChars \<Longrightarrow> c \<notin> set upperChars"
  by (auto simp: lowerChars_def upperChars_def)

lemma toLowerChar_lower:
  assumes "c \<in> set lowerChars"
  shows "toLowerChar c = c"
proof -
  have "length upperChars = length lowerChars" by (simp add: lowerChars_def upperChars_def)
  then have "map fst (zip upperChars lowerChars) = upperChars" by (rule map_fst_zip)
  then have "fst ` set (zip upperChars lowerChars) = set upperChars" by (metis set_map)
  with lower_not_upper [OF assms] have "map_of (zip upperChars lowerChars) c = None"
    by (simp add: map_of_eq_None_iff)
  then show ?thesis by (simp add: toLowerChar_def)
qed

lemma toLowerChar_idem: "toLowerChar (toLowerChar c) = toLowerChar c"
proof (cases "map_of (zip upperChars lowerChars) c")
  case None
  then show ?thesis by (simp add: toLowerChar_def)
next
  case (Some l)
  then have "(c, l) \<in> set (zip upperChars lowerChars)" by (rule map_of_SomeD)
  then have "l \<in> set lowerChars" by (rule set_zip_rightD)
  then have "toLowerChar l = l" by (rule toLowerChar_lower)
  with Some show ?thesis by (simp add: toLowerChar_def)
qed

lemma replaceAll_chars: "set (replaceAll m rep p k s) \<subseteq> set s \<union> set rep"
  by (induction m rep p k s rule: replaceAll.induct) (auto split: option.splits nat.splits)

lemma trim_chars: "set (trim s) \<subseteq> set s"
proof -
  have "set (trim s) \<subseteq> set (rev (dropWhile isSpace s))"
    unfolding trim_def set_rev by (auto dest: set_dropWhileD)
  also have "\<dots> \<subseteq> set s" by (auto dest: set_dropWhileD)
  finally show ?thesis .
qed

lemma lowered_toLowerCase: "lowered (toLowerCase s)"
  by (simp add: lowered_def toLowerCase_def toLowerChar_idem)

lemma lowered_replaceAll: "lowered s \<Longrightarrow> lowered rep \<Longrightarrow> lowered (replaceAll m rep p k s)"
  unfolding lowered_def using replaceAll_chars [of m rep p k s] by blast

lemma lowered_trim: "lowered s \<Longrightarrow> lowered (trim s)"
  unfolding lowered_def using trim_chars [of s] by blast

lemma lowered_reps:
  "lowered ''<ip>''" "lowered '':<port>''" "lowered ''/<uuid>''" "lowered ''<n>''" "lowered '' ''"
  by (simp_all add: lowered_def toLowerChar_def upperChars_def lowerChars_def)

lemma lowered_fixpoint: "lowered s \<Longrightarrow> toLowerCase s = s"
  by (simp add: lowered_def toLowerCase_def map_idI)


subsection \<open>The normal form\<close>

lemma normalized_fixpoint:
  assumes "normalized y"
  shows "normalizeText y = y"
proof -
  from assms have y: "toLowerCase y = y" "replaceAll matchIp ''<ip>'' None 0 y = y"
      "replaceAll matchPort '':<port>'' None 0 y = y" "replaceAll matchUuid ''/<uuid>'' None 0 y = y"
      "replaceAll matchNumber ''<n>'' None 0 y = y" "replaceAll matchSpace '' '' None 0 y = y"
      "trim y = y"
    by (simp_all add: normalized_def lowered_fixpoint noMatch_fixpoint spacesOk_fixpoint)
  show ?thesis unfolding normalizeText_def y ..
qed

lemma matchIp_wf: "matchIp p s = Some n \<Longrightarrow> 0 < n \<and> n \<le> length s"
  using matchIp_sound [of p s n] by simp

lemma whole_reps:
  "matchPort p ('':<port>'' @ t) = None" "matchPort p (''/<uuid>'' @ t) = None"
  "matchPort p (''<n>'' @ t) = None" "matchPort p ('' '' @ t) = None"
  "matchUuid p (''/<uuid>'' @ t) = None" "matchUuid p (''<n>'' @ t) = None"
  "matchUuid p ('' '' @ t) = None"
  by (simp_all add: matchPort_def matchUuid_def digit_reps hexDash_reps)

lemma normalizeText_normalized: "normalized (normalizeText x)"
proof -
  define s0 where "s0 = toLowerCase x"
  define s1 where "s1 = replaceAll matchIp ''<ip>'' None 0 s0"
  define s2 where "s2 = replaceAll matchPort '':<port>'' None 0 s1"
  define s3 where "s3 = replaceAll matchUuid ''/<uuid>'' None 0 s2"
  define s4 where "s4 = replaceAll matchNumber ''<n>'' None 0 s3"
  define s5 where "s5 = replaceAll matchSpace '' '' None 0 s4"
  have y: "normalizeText x = trim s5"
    by (simp add: normalizeText_def s0_def s1_def s2_def s3_def s4_def s5_def)
  have low: "lowered (trim s5)"
    unfolding s5_def s4_def s3_def s2_def s1_def s0_def
    by (intro lowered_trim lowered_replaceAll lowered_toLowerCase lowered_reps)
  have ip1: "noMatch matchIp None s1"
    unfolding s1_def
    by (rule stage_ip [where mj = matchIp, OF matchIp_wf]) (simp_all add: digit_reps)
  have ip2: "noMatch matchIp None s2"
    unfolding s2_def using ip1
    by (intro stage_ip [where mj = matchPort, OF matchPort_wf]) (simp_all add: digit_reps)
  have ip3: "noMatch matchIp None s3"
    unfolding s3_def using ip2
    by (intro stage_ip [where mj = matchUuid, OF matchUuid_wf]) (simp_all add: digit_reps)
  have ip4: "noMatch matchIp None s4"
    unfolding s4_def using ip3
    by (intro stage_ip [where mj = matchNumber, OF matchNumber_wf]) (simp_all add: digit_reps)
  have ip5: "noMatch matchIp None s5"
    unfolding s5_def using ip4
    by (intro stage_ip [where mj = matchSpace, OF matchSpace_wf]) (simp_all add: digit_reps)
  have port2: "noMatch matchPort None s2"
    unfolding s2_def
    by (rule stage_port [where mj = matchPort, OF matchPort_wf])
       (simp_all add: digit_reps whole_reps [simplified])
  have port3: "noMatch matchPort None s3"
    unfolding s3_def using port2
    by (intro stage_port [where mj = matchUuid, OF matchUuid_wf])
       (simp_all add: digit_reps whole_reps [simplified])
  have port4: "noMatch matchPort None s4"
    unfolding s4_def using port3
    by (intro stage_port [where mj = matchNumber, OF matchNumber_wf])
       (simp_all add: digit_reps whole_reps [simplified])
  have port5: "noMatch matchPort None s5"
    unfolding s5_def using port4
    by (intro stage_port [where mj = matchSpace, OF matchSpace_wf])
       (simp_all add: digit_reps whole_reps [simplified])
  have uuid3: "noMatch matchUuid None s3"
    unfolding s3_def
    by (rule stage_uuid [where mj = matchUuid, OF matchUuid_wf])
       (simp_all add: hexDash_reps whole_reps [simplified])
  have uuid4: "noMatch matchUuid None s4"
    unfolding s4_def using uuid3
    by (intro stage_uuid [where mj = matchNumber, OF matchNumber_wf])
       (simp_all add: hexDash_reps whole_reps [simplified])
  have uuid5: "noMatch matchUuid None s5"
    unfolding s5_def using uuid4
    by (intro stage_uuid [where mj = matchSpace, OF matchSpace_wf])
       (simp_all add: hexDash_reps whole_reps [simplified])
  have num4: "noMatch matchNumber None s4"
    unfolding s4_def by (rule number_number)
  have num5: "noMatch matchNumber None s5"
    unfolding s5_def using num4 by (rule number_space)
  have ws5: "spacesOk s5"
    unfolding s5_def by (rule spacesOk_replaceAll)
  show ?thesis
    unfolding y normalized_def
    using low ip5 port5 uuid5 num5 ws5
    by (simp add: matchIp_trim matchPort_trim matchUuid_trim matchNumber_trim spacesOk_trim trim_idem)
qed

text \<open>
  C4 (fingerprint normalization is idempotent). The normalization that \<open>generateFingerprint\<close>
  applies before it cuts the text to 100 characters is idempotent, and \<open>generateFingerprint\<close>
  applied twice gives what it gives applied once for every message whose normalized text
  has at most 100 characters.
\<close>

theorem normalizeText_idempotent:
  "normalizeText (normalizeText x) = normalizeText x
   \<and> (length (normalizeText x) \<le> 100 \<longrightarrow>
        generateFingerprint (generateFingerprint x) = generateFingerprint x)"
proof -
  have "normalizeText (normalizeText x) = normalizeText x"
    using normalizeText_normalized by (rule normalized_fixpoint)
  then show ?thesis by (simp add: generateFingerprint_def)
qed

text \<open>A message with an address, a port, a number and a run of spaces.\<close>

theorem normalizeText_idempotent_witness:
  "length (normalizeText ''Connect to 10.0.0.1:5432 failed   3 times'') \<le> 100
   \<and> generateFingerprint ''Connect to 10.0.0.1:5432 failed   3 times''
       = ''connect to <ip>:<port> failed <n> times''
   \<and> generateFingerprint (generateFingerprint ''Connect to 10.0.0.1:5432 failed   3 times'')
       = generateFingerprint ''Connect to 10.0.0.1:5432 failed   3 times''"
proof -
  have 1: "length (normalizeText ''Connect to 10.0.0.1:5432 failed   3 times'') \<le> 100"
    by code_simp
  have 2: "generateFingerprint ''Connect to 10.0.0.1:5432 failed   3 times''
             = ''connect to <ip>:<port> failed <n> times''"
    by code_simp
  from normalizeText_idempotent [of "''Connect to 10.0.0.1:5432 failed   3 times''"] 1 2
  show ?thesis by blast
qed

text \<open>
  With the cut, \<open>generateFingerprint\<close> is not idempotent: on 99 letters, a space and a letter
  the first application cuts after the space, which the second one trims.
\<close>

theorem generateFingerprint_not_idempotent:
  "generateFingerprint (replicate 99 CHR ''a'' @ '' b'') = replicate 99 CHR ''a'' @ '' ''
   \<and> generateFingerprint (generateFingerprint (replicate 99 CHR ''a'' @ '' b''))
       = replicate 99 CHR ''a''
   \<and> generateFingerprint (generateFingerprint (replicate 99 CHR ''a'' @ '' b''))
       \<noteq> generateFingerprint (replicate 99 CHR ''a'' @ '' b'')"
  by code_simp

section \<open>Properties of the rounding\<close>

lemma roundEven_near: "\<bar>of_int (roundEven x) - x\<bar> \<le> 1/2"
  unfolding roundEven_def Let_def by (auto; linarith)

lemma roundEven_unique:
  assumes "\<bar>x - of_int k\<bar> < 1/2"
  shows "roundEven x = k"
proof -
  have "\<bar>of_int (roundEven x) - x\<bar> \<le> 1/2" by (rule roundEven_near)
  with assms have "\<bar>(of_int (roundEven x) :: real) - of_int k\<bar> < 1" by linarith
  then have "\<bar>roundEven x - k\<bar> < 1"
    by (metis of_int_diff of_int_abs of_int_less_1_iff)
  then show ?thesis by linarith
qed

lemma roundEven_of_int [simp]: "roundEven (of_int k) = k"
  by (rule roundEven_unique) simp

lemma roundEven_nonneg: "0 \<le> x \<Longrightarrow> 0 \<le> roundEven x"
  unfolding roundEven_def Let_def by (auto simp: zero_le_floor; linarith)

lemma quantum64_pos: "0 < quantum64 x"
  by (simp add: quantum64_def)

lemma rnd64_0 [simp]: "rnd64 0 = 0"
  by (simp add: rnd64_def)

lemma rnd64_nonneg: "0 \<le> x \<Longrightarrow> 0 \<le> rnd64 x"
  using roundEven_nonneg [of "x / quantum64 x"] quantum64_pos [of x]
  by (simp add: rnd64_def)

lemma rnd64_abs_error: "\<bar>rnd64 x - x\<bar> \<le> quantum64 x / 2"
proof (cases "x = 0")
  case True
  then show ?thesis using quantum64_pos [of 0] by simp
next
  case False
  let ?q = "quantum64 x"
  have q: "0 < ?q" by (rule quantum64_pos)
  have "rnd64 x - x = (of_int (roundEven (x / ?q)) - x / ?q) * ?q"
    using False q by (simp add: rnd64_def field_simps)
  then have "\<bar>rnd64 x - x\<bar> = \<bar>of_int (roundEven (x / ?q)) - x / ?q\<bar> * ?q"
    using q by (simp add: abs_mult)
  also have "\<dots> \<le> (1/2) * ?q"
    using roundEven_near [of "x / ?q"] q by (intro mult_right_mono) simp_all
  finally show ?thesis by simp
qed

lemma exponent64_normal:
  assumes "2 powr (- 1022) \<le> \<bar>x\<bar>"
  shows "exponent64 x = \<lfloor>log 2 \<bar>x\<bar>\<rfloor>" and "2 powr of_int (exponent64 x) \<le> \<bar>x\<bar>"
proof -
  have pos: "0 < \<bar>x\<bar>" using assms by (smt (verit) powr_gt_zero)
  have "- 1022 \<le> log 2 \<bar>x\<bar>"
    using assms pos by (simp add: le_log_iff)
  then have "- 1022 \<le> \<lfloor>log 2 \<bar>x\<bar>\<rfloor>" by (simp add: le_floor_iff)
  then show 1: "exponent64 x = \<lfloor>log 2 \<bar>x\<bar>\<rfloor>" by (simp add: exponent64_def)
  have "2 powr of_int \<lfloor>log 2 \<bar>x\<bar>\<rfloor> \<le> 2 powr log 2 \<bar>x\<bar>"
    by (intro powr_mono) simp_all
  also have "\<dots> = \<bar>x\<bar>" using pos by simp
  finally show "2 powr of_int (exponent64 x) \<le> \<bar>x\<bar>" unfolding 1 .
qed

text \<open>The relative error of a rounding in the normal range is at most \<open>2 powr - 53\<close>.\<close>

lemma rnd64_rel_error:
  assumes "2 powr (- 1022) \<le> \<bar>x\<bar>"
  shows "\<bar>rnd64 x - x\<bar> \<le> \<bar>x\<bar> / 2 ^ 53"
proof -
  have "quantum64 x = 2 powr of_int (exponent64 x) * 2 powr (- 52)"
    by (simp add: quantum64_def powr_add [symmetric])
  also have "\<dots> \<le> \<bar>x\<bar> * 2 powr (- 52)"
    using exponent64_normal(2) [OF assms] by (intro mult_right_mono) simp_all
  finally have "quantum64 x / 2 \<le> \<bar>x\<bar> * 2 powr (- 52) / 2" by simp
  also have "\<dots> = \<bar>x\<bar> / 2 ^ 53"
    by (simp add: powr_minus powr_numeral field_simps flip: powr_numeral)
  finally show ?thesis using rnd64_abs_error [of x] by linarith
qed

lemma exponent64_eq:
  assumes "2 powr of_int e \<le> \<bar>x\<bar>" and "\<bar>x\<bar> < 2 powr of_int (e + 1)" and "- 1022 \<le> e"
  shows "exponent64 x = e"
proof -
  have pos: "0 < \<bar>x\<bar>" using assms(1) by (smt (verit) powr_gt_zero)
  have "\<lfloor>log 2 \<bar>x\<bar>\<rfloor> = e"
    using assms(1,2) pos by (subst floor_log_eq_powr_iff) simp_all
  with assms(3) show ?thesis by (simp add: exponent64_def)
qed

text \<open>The value of a rounding, from the binade of the argument and the nearest multiple.\<close>

lemma rnd64_eval:
  assumes "2 powr of_int e \<le> \<bar>x\<bar>" and "\<bar>x\<bar> < 2 powr of_int (e + 1)" and "- 1022 \<le> e"
    and "q = 2 powr of_int (e - 52)"
    and "\<bar>x / q - of_int k\<bar> < 1/2"
  shows "rnd64 x = of_int k * q"
proof -
  have "x \<noteq> 0" using assms(1) by (smt (verit) powr_gt_zero)
  moreover have "quantum64 x = q"
    using exponent64_eq [OF assms(1-3)] assms(4) by (simp add: quantum64_def)
  moreover have "roundEven (x / q) = k" using assms(5) by (rule roundEven_unique)
  ultimately show ?thesis by (simp add: rnd64_def)
qed


lemma powr_neg_nat: "(2::real) powr of_int (- int n) = 1 / 2 ^ n"
  by (simp add: powr_minus powr_realpow field_simps)

lemma powr_neg_nat': "(2::real) powr (- real n) = 1 / 2 ^ n"
  by (simp add: powr_minus powr_realpow field_simps)

text \<open>The rounding of a number between \<open>1 / 2 ^ n\<close> and \<open>2 / 2 ^ n\<close>.\<close>

lemma rnd64_eval_binade:
  assumes "1 / 2 ^ n \<le> \<bar>x\<bar>" and "\<bar>x\<bar> < 2 / 2 ^ n" and "n \<le> 1022"
    and "\<bar>x * 2 ^ (n + 52) - of_int k\<bar> < 1/2"
  shows "rnd64 x = of_int k / 2 ^ (n + 52)"
proof -
  have 1: "2 powr of_int (- int n) \<le> \<bar>x\<bar>" using assms(1) unfolding powr_neg_nat .
  have "(2::real) powr of_int (- int n + 1) = 2 / 2 ^ n"
    by (simp add: powr_diff powr_realpow)
  then have 2: "\<bar>x\<bar> < 2 powr of_int (- int n + 1)"
    using assms(2) by simp
  have 3: "- 1022 \<le> - int n" using assms(3) by simp
  have "- int n - 52 = - int (n + 52)" by simp
  then have 4: "1 / 2 ^ (n + 52) = (2::real) powr of_int (- int n - 52)"
    using powr_neg_nat [of "n + 52"] by simp
  have 5: "\<bar>x / (1 / 2 ^ (n + 52)) - of_int k\<bar> < 1/2" using assms(4) by simp
  from rnd64_eval [OF 1 2 3 4 5] show ?thesis by simp
qed

text \<open>A number with a significand of at most 53 bits and an exponent in range is a double.\<close>

lemma rnd64_dyadic:
  assumes "\<bar>m\<bar> < 2 ^ 53" and "n \<le> 1074"
  shows "rnd64 (of_int m / 2 ^ n) = of_int m / 2 ^ n"
proof (cases "m = 0")
  case True
  then show ?thesis by simp
next
  case False
  define x :: real where "x = of_int m / 2 ^ n"
  define e where "e = exponent64 x"
  have x0: "x \<noteq> 0" using False by (simp add: x_def)
  have absx: "\<bar>x\<bar> = of_int \<bar>m\<bar> / 2 ^ n" by (simp add: x_def abs_div)
  have "of_int \<bar>m\<bar> < (2::real) ^ 53" using assms(1) by (metis of_int_less_numeral_power_cancel_iff)
  then have "\<bar>x\<bar> < 2 ^ 53 / 2 ^ n" unfolding absx by (simp add: divide_strict_right_mono)
  also have "\<dots> = 2 powr (53 - real n)"
    by (simp add: powr_diff powr_realpow flip: powr_numeral)
  finally have "log 2 \<bar>x\<bar> < 53 - real n"
    using x0 by (simp add: log_less_iff)
  then have "\<lfloor>log 2 \<bar>x\<bar>\<rfloor> < 53 - int n"
    by (simp add: floor_less_iff)
  then have le: "e \<le> 52 - int n" using assms(2) by (simp add: e_def exponent64_def)
  define d where "d = nat (52 - int n - e)"
  have d: "int d = 52 - int n - e" using le by (simp add: d_def)
  have q: "quantum64 x = 2 powr of_int (e - 52)" by (simp add: quantum64_def e_def)
  have "of_int (e - 52) = - real n - real d" using d by simp
  then have "quantum64 x = 2 powr (- real n - real d)" unfolding q by simp
  also have "\<dots> = 1 / (2 ^ n * 2 ^ d)"
    by (simp add: powr_diff powr_neg_nat' powr_realpow field_simps)
  finally have q': "quantum64 x = 1 / (2 ^ n * 2 ^ d)" .
  have "x / quantum64 x = of_int (m * 2 ^ d)" unfolding q' by (simp add: x_def)
  then have "rnd64 x = of_int (m * 2 ^ d) * quantum64 x"
    using x0 by (simp add: rnd64_def del: of_int_mult)
  also have "\<dots> = x" unfolding q' by (simp add: x_def)
  finally show ?thesis by (simp add: x_def)
qed

lemma rnd64_int: "\<bar>m\<bar> < 2 ^ 53 \<Longrightarrow> rnd64 (of_int m) = of_int m"
  using rnd64_dyadic [of m 0] by simp

lemma rnd64_1 [simp]: "rnd64 1 = 1"
  using rnd64_int [of 1] by simp

lemma rnd64_half: "rnd64 (1/2) = 1/2"
  using rnd64_dyadic [of 1 1] by simp

lemma rnd64_quarter: "rnd64 (1/4) = 1/4"
  using rnd64_dyadic [of 1 2] by simp


lemma fmul_root_half:
  "fmul (6369051672525773 / 2 ^ 53) (6369051672525773 / 2 ^ 53) = 4503599627370497 / 2 ^ 53"
proof -
  have "rnd64 ((6369051672525773 / 2 ^ 53) * (6369051672525773 / 2 ^ 53))
          = of_int 4503599627370497 / 2 ^ (1 + 52)"
    by (rule rnd64_eval_binade) (simp_all add: abs_less_iff)
  then show ?thesis by (simp add: fmul_def)
qed

lemma fdiv_half:
  "fdiv (1/2) (4503599627370497 / 2 ^ 53) = 9007199254740990 / 2 ^ 53"
proof -
  have "rnd64 ((1/2) / (4503599627370497 / 2 ^ 53)) = of_int 9007199254740990 / 2 ^ (1 + 52)"
    by (rule rnd64_eval_binade) (simp_all add: abs_less_iff)
  then show ?thesis by (simp add: fdiv_def)
qed

section \<open>Properties of the embeddings manager\<close>

subsection \<open>Maps and tables\<close>

lemma update_fresh: "k \<notin> fst ` set al \<Longrightarrow> AList.update k v al = al @ [(k, v)]"
  by (induction al) auto




lemma map_fst_rescale: "map (fst \<circ> (\<lambda>(t, x). (t, g t x))) xs = map fst xs"
  by (induction xs) auto











subsection \<open>Term frequencies and vectors\<close>



lemma toVector_loop:
  assumes "distinct (map fst tf)" and "fst ` set tf \<inter> fst ` set ts = {}"
  shows "foldl (\<lambda>(ts, sumSquares) (t, tfValue).
                let idfValue = idfOrOne idf t;
                    tfidf = fmul tfValue idfValue
                in (AList.update t tfidf ts, fadd sumSquares (fmul tfidf tfidf)))
              (ts, s) tf
       = (ts @ map (\<lambda>(t, x). (t, fmul x (idfOrOne idf t))) tf,
          foldl (\<lambda>s (t, v). fadd s (fmul v v)) s (map (\<lambda>(t, x). (t, fmul x (idfOrOne idf t))) tf))"
  using assms
proof (induction tf arbitrary: ts s)
  case Nil
  then show ?case by simp
next
  case (Cons e tf)
  obtain t x where e: "e = (t, x)" by (cases e)
  from Cons.prems e have fresh: "t \<notin> fst ` set ts" by auto
  from Cons.prems e have d: "distinct (map fst tf)"
    and disj: "fst ` set tf \<inter> fst ` set (ts @ [(t, fmul x (idfOrOne idf t))]) = {}"
    by auto
  from Cons.IH [OF d disj] show ?case
    by (simp add: e Let_def update_fresh [OF fresh])
qed

lemma toVector_terms:
  assumes "distinct (map fst tf)"
  shows "terms (toVector tf idf) = map (\<lambda>(t, x). (t, fmul x (idfOrOne idf t))) tf"
    and "magnitude (toVector tf idf) = fsqrt (sumSquares (terms (toVector tf idf)))"
proof -
  have *: "toVector tf idf =
     \<lparr>terms = map (\<lambda>(t, x). (t, fmul x (idfOrOne idf t))) tf,
      magnitude = fsqrt (sumSquares (map (\<lambda>(t, x). (t, fmul x (idfOrOne idf t))) tf))\<rparr>"
    using toVector_loop [OF assms, of "[]" idf 0] by (simp add: toVector_def sumSquares_def)
  show "terms (toVector tf idf) = map (\<lambda>(t, x). (t, fmul x (idfOrOne idf t))) tf"
    by (simp add: *)
  show "magnitude (toVector tf idf) = fsqrt (sumSquares (terms (toVector tf idf)))"
    by (simp add: *)
qed

lemma toVector_distinct:
  assumes "distinct (map fst tf)"
  shows "distinct (map fst (terms (toVector tf idf)))"
  using assms by (simp add: toVector_terms(1) map_fst_rescale)


subsection \<open>The tables of the manager\<close>












subsection \<open>A term that no stored vector has\<close>





lemma rnd64_2: "rnd64 2 = 2"
  using rnd64_int [of 2] by simp

lemma small_values:
  "fadd 0 1 = 1" "fadd 1 1 = 2" "fdiv 1 1 = 1" "fdiv 2 2 = 1" "fdiv 1 2 = 1/2"
  "fmul 1 1 = 1" "fmul (1/2) 1 = 1/2" "fmul (1/2) (1/2) = 1/4"
  "fadd 0 (1/4) = 1/4" "fadd (1/4) (1/4) = 1/2" "fadd 0 (1/2) = 1/2"
  "fsqrt 1 = 1" "fdiv 0 1 = 0"
  by (simp_all add: fadd_def fmul_def fdiv_def fsqrt_def rnd64_2 rnd64_half rnd64_quarter)














lemma root_half_dyadic:
  "rnd64 (6369051672525773 / 9007199254740992) = 6369051672525773 / 9007199254740992"
  using rnd64_dyadic [of 6369051672525773 53] by simp

lemma fmul_root_one:
  "fmul (6369051672525773 / 9007199254740992) 1 = 6369051672525773 / 9007199254740992"
  by (simp add: fmul_def root_half_dyadic)

lemma fdiv_half_root:
  "fdiv (1/2) (6369051672525773 / 9007199254740992) = 6369051672525772 / 2 ^ 53"
proof -
  have "rnd64 ((1/2) / (6369051672525773 / 9007199254740992))
          = of_int 6369051672525772 / 2 ^ (1 + 52)"
    by (rule rnd64_eval_binade) (simp_all add: abs_less_iff)
  then show ?thesis by (simp add: fdiv_def)
qed


lemma cosine_diluted:
  "cosineSimilarity \<lparr>terms = [(''refused'', 1/2), (''zzz'', 1/2)], magnitude = 6369051672525773 / 2 ^ 53\<rparr>
      \<lparr>terms = [(''refused'', 1)], magnitude = 1\<rparr> = 6369051672525772 / 2 ^ 53"
  by (simp add: cosineSimilarity_def dotProduct_def small_values fmul_root_one fdiv_half_root)





end
